theory Spec2Isabelle
  imports Complex_Main "HOL-Library.Sublist"
begin

section \<open>Values handed to the JSON serialiser\<close>

text \<open>
  The generator builds nested Python objects out of \<^verbatim>\<open>None\<close>, numbers, strings, lists and
  dictionaries and hands them to \<^verbatim>\<open>json.dump\<close>. A dictionary keeps its insertion order
  (Python 3.7 and later), and that order is the order of the keys in the written file, so a
  dictionary is an association list. The only float of the program is the literal
  \<^verbatim>\<open>-3 / 16\<close>, which is exact; floats are carried as rationals.
\<close>

datatype json =
    JNull
  | JBool bool
  | JInt int
  | JFloat rat
  | JStr string
  | JList "json list"
  | JDict "(string \<times> json) list"

type_synonym 'v dict = "(string \<times> 'v) list"

text \<open>\<^verbatim>\<open>d[k] = v\<close>: an existing key keeps its place, a new key goes to the end.\<close>

fun dict_set :: "'k \<Rightarrow> 'v \<Rightarrow> ('k \<times> 'v) list \<Rightarrow> ('k \<times> 'v) list" where
  "dict_set k v [] = [(k, v)]"
| "dict_set k v ((k', v') # d) =
     (if k' = k then (k', v) # d else (k', v') # dict_set k v d)"

text \<open>\<^verbatim>\<open>d.update(e)\<close>, and a dictionary display or comprehension, set the pairs one by one.\<close>

definition dict_update :: "('k \<times> 'v) list \<Rightarrow> ('k \<times> 'v) list \<Rightarrow> ('k \<times> 'v) list" where
  "dict_update d e = foldl (\<lambda>acc (k, v). dict_set k v acc) d e"

definition dict_of :: "('k \<times> 'v) list \<Rightarrow> ('k \<times> 'v) list" where
  "dict_of kvs = dict_update [] kvs"

text \<open>A well-formed dictionary has no key twice, at any depth below a dictionary or a list.\<close>

fun wf_json :: "json \<Rightarrow> bool" where
  "wf_json (JList xs) = list_all wf_json xs"
| "wf_json (JDict d) = (distinct (map fst d) \<and> list_all (\<lambda>kv. wf_json (snd kv)) d)"
| "wf_json _ = True"


section \<open>Null-pruning\<close>

text \<open>
  \<^verbatim>\<open>
  def del_none(d):
      for key, value in list(d.items()):
          if value is None:
              del d[key]
          elif isinstance(value, dict):
              del_none(value)
      return d
  \<close>
  On a tree of values the loop keeps the entries in their order, drops those whose value is
  \<^verbatim>\<open>None\<close>, and prunes the values that are dictionaries; every other value, a list
  included, stays as it is. \<open>del_none\<close> is the value a call returns when it returns. The
  call with the interpreter's recursion limit is \<open>del_none_limit\<close> below, and the store
  model of the same function, which also follows object identity, is \<open>del_none_heap\<close>.
\<close>

function (sequential) del_none :: "json dict \<Rightarrow> json dict" where
  "del_none [] = []"
| "del_none ((key, JNull) # d) = del_none d"
| "del_none ((key, JDict d') # d) = (key, JDict (del_none d')) # del_none d"
| "del_none ((key, v) # d) = (key, v) # del_none d"
  by pat_completeness auto
termination
  by (relation "measure (\<lambda>d. size (JDict d))") auto

text \<open>
  The function calls itself once for every level of nesting, and the interpreter raises
  \<^verbatim>\<open>RecursionError\<close> when no frame is left. \<open>del_none_limit n d\<close> is the call with \<open>n\<close>
  frames left: it needs one frame for itself, and the loop over the entries runs in that
  frame with \<open>n - 1\<close> frames left for the calls it makes. Which entries were deleted before
  an exception is of no interest here: the exception ends the run. \<open>del_none\<close> above is
  what such a call returns when the frames suffice, as shown below.
\<close>

datatype exn = RecursionError | KeyError

fun del_none_limit :: "nat \<Rightarrow> json dict \<Rightarrow> exn + json dict"
  and del_none_items :: "nat \<Rightarrow> json dict \<Rightarrow> exn + json dict" where
  "del_none_limit 0 d = Inl RecursionError"
| "del_none_limit (Suc n) d = del_none_items n d"
| "del_none_items n [] = Inr []"
| "del_none_items n ((key, JNull) # d) = del_none_items n d"
| "del_none_items n ((key, JDict d') # d) =
     (case del_none_limit n d' of
        Inl e \<Rightarrow> Inl e
      | Inr r \<Rightarrow>
          (case del_none_items n d of
             Inl e \<Rightarrow> Inl e
           | Inr rest \<Rightarrow> Inr ((key, JDict r) # rest)))"
| "del_none_items n ((key, v) # d) =
     (case del_none_items n d of
        Inl e \<Rightarrow> Inl e
      | Inr rest \<Rightarrow> Inr ((key, v) # rest))"

text \<open>
  The depth of a value: the number of dictionaries on the longest way down through values
  that are dictionaries. A dictionary nested \<open>k\<close> times in one-entry dictionaries.
\<close>

fun dict_depth :: "json \<Rightarrow> nat" where
  "dict_depth (JDict d) = Suc (foldr max (map (\<lambda>kv. dict_depth (snd kv)) d) 0)"
| "dict_depth v = 0"

fun nested :: "nat \<Rightarrow> json dict" where
  "nested 0 = [(''a'', JNull)]"
| "nested (Suc k) = [(''a'', JDict (nested k))]"

text \<open>The number of \<^verbatim>\<open>None\<close> values reachable through dictionaries only, and anywhere.\<close>

fun nulls_in :: "json \<Rightarrow> nat" where
  "nulls_in JNull = 1"
| "nulls_in (JDict d) = sum_list (map (\<lambda>kv. nulls_in (snd kv)) d)"
| "nulls_in _ = 0"

fun nulls_anywhere :: "json \<Rightarrow> nat" where
  "nulls_anywhere JNull = 1"
| "nulls_anywhere (JList xs) = sum_list (map nulls_anywhere xs)"
| "nulls_anywhere (JDict d) = sum_list (map (\<lambda>kv. nulls_anywhere (snd kv)) d)"
| "nulls_anywhere _ = 0"

text \<open>The values the claims call "mappings of null, scalars and nested mappings": no list.\<close>

fun list_free :: "json \<Rightarrow> bool" where
  "list_free (JList xs) = False"
| "list_free (JDict d) = list_all (\<lambda>kv. list_free (snd kv)) d"
| "list_free _ = True"

text \<open>What pruning makes of one value of a dictionary.\<close>

fun pruned :: "json \<Rightarrow> json" where
  "pruned (JDict d) = JDict (del_none d)"
| "pruned v = v"


section \<open>The same function on a store of objects\<close>

text \<open>
  In Python a dictionary is an object and a value that is a dictionary is a reference to it;
  \<^verbatim>\<open>del_none\<close> changes the objects it visits and returns the reference it was given.
  The store maps an address to the entries of the dictionary that lives there. The loop runs
  over \<^verbatim>\<open>list(d.items())\<close>, a copy of the entries taken before the first deletion, and
  \<^verbatim>\<open>del d[key]\<close> acts on the dictionary as it is at that moment. The first argument bounds
  the depth of the recursion, as the interpreter's recursion limit does.
\<close>

datatype pyval =
    PNone
  | PBool bool
  | PInt int
  | PFloat rat
  | PStr string
  | PList "pyval list"
  | PRef nat

type_synonym heap = "nat \<Rightarrow> (string \<times> pyval) list"

text \<open>\<^verbatim>\<open>del d[key]\<close> raises \<^verbatim>\<open>KeyError\<close> when the key is not there.\<close>

definition dict_del :: "'k \<Rightarrow> ('k \<times> 'v) list \<Rightarrow> ('k \<times> 'v) list option" where
  "dict_del k d =
     (if k \<in> fst ` set d then Some (filter (\<lambda>kv. fst kv \<noteq> k) d) else None)"

fun del_none_heap :: "nat \<Rightarrow> nat \<Rightarrow> heap \<Rightarrow> exn + nat \<times> heap"
  and del_none_loop :: "nat \<Rightarrow> nat \<Rightarrow> (string \<times> pyval) list \<Rightarrow> heap \<Rightarrow> exn + heap" where
  "del_none_heap 0 d h = Inl RecursionError"
| "del_none_heap (Suc n) d h =
     (case del_none_loop n d (h d) h of Inl e \<Rightarrow> Inl e | Inr h' \<Rightarrow> Inr (d, h'))"
| "del_none_loop n d [] h = Inr h"
| "del_none_loop n d ((key, PNone) # items) h =
     (case dict_del key (h d) of
        None \<Rightarrow> Inl KeyError
      | Some kvs \<Rightarrow> del_none_loop n d items (h(d := kvs)))"
| "del_none_loop n d ((key, PRef r) # items) h =
     (case del_none_heap n r h of
        Inl e \<Rightarrow> Inl e
      | Inr (r', h') \<Rightarrow> del_none_loop n d items h')"
| "del_none_loop n d ((key, v) # items) h = del_none_loop n d items h"

text \<open>
  A store in which the dictionaries reached from \<open>a\<close> nest less than \<open>n\<close> deep (so none of
  them contains itself) and have no key twice.
\<close>

fun shallow :: "nat \<Rightarrow> heap \<Rightarrow> nat \<Rightarrow> bool" where
  "shallow 0 h a = False"
| "shallow (Suc n) h a =
     (distinct (map fst (h a))
      \<and> list_all (\<lambda>kv. case snd kv of PRef r \<Rightarrow> shallow n h r | _ \<Rightarrow> True) (h a))"

text \<open>The objects that can be reached from \<open>a\<close> through values that are dictionaries.\<close>

inductive_set dict_reach :: "heap \<Rightarrow> nat \<Rightarrow> nat set" for h :: heap and a :: nat where
  self: "a \<in> dict_reach h a"
| step: "b \<in> dict_reach h a \<Longrightarrow> (k, PRef c) \<in> set (h b) \<Longrightarrow> c \<in> dict_reach h a"


section \<open>Strings and paths\<close>

text \<open>\<^verbatim>\<open>'%d' % i\<close> and \<^verbatim>\<open>'{}'.format(i)\<close>: the decimal digits of an integer.\<close>

definition digit_char :: "nat \<Rightarrow> char" where
  "digit_char n = ''0123456789'' ! n"

fun string_of_nat :: "nat \<Rightarrow> string" where
  "string_of_nat n =
     (if n < 10 then [digit_char n] else string_of_nat (n div 10) @ [digit_char (n mod 10)])"

declare string_of_nat.simps [simp del]

definition string_of_int :: "int \<Rightarrow> string" where
  "string_of_int i = (if i < 0 then CHR ''-'' # string_of_nat (nat (- i)) else string_of_nat (nat i))"

text \<open>
  \<^verbatim>\<open>os.path.join\<close> and \<^verbatim>\<open>os.path.dirname\<close> as \<^verbatim>\<open>posixpath\<close> has them: a component that
  starts with the separator discards what came before it, and no separator is added after
  an empty path or after a separator.
\<close>

fun os_path_join :: "string \<Rightarrow> string list \<Rightarrow> string" where
  "os_path_join path [] = path"
| "os_path_join path (b # p) =
     os_path_join
       (if b \<noteq> [] \<and> hd b = CHR ''/'' then b
        else if path = [] \<or> last path = CHR ''/'' then path @ b
        else path @ ''/'' @ b) p"

definition rstrip_sep :: "string \<Rightarrow> string" where
  "rstrip_sep p = rev (dropWhile (\<lambda>c. c = CHR ''/'') (rev p))"

definition os_path_dirname :: "string \<Rightarrow> string" where
  "os_path_dirname p =
     (let head = rev (dropWhile (\<lambda>c. c \<noteq> CHR ''/'') (rev p))
      in if head \<noteq> [] \<and> (\<exists>c \<in> set head. c \<noteq> CHR ''/'') then rstrip_sep head else head)"

text \<open>The directories \<^verbatim>\<open>os.makedirs\<close> has to make for a path, the shortest first.\<close>

definition ancestors :: "string \<Rightarrow> string list" where
  "ancestors name =
     filter (\<lambda>a. a \<noteq> [] \<and> last a \<noteq> CHR ''/'' \<and> (a = name \<or> name ! length a = CHR ''/''))
       (prefixes name)"


section \<open>The file system\<close>

text \<open>
  The script creates directories and writes files, and an exception of a file operation
  ends the run where it is raised. The state is the tree of files and directories, keyed by
  the path from the directory the script was started in (the empty path), the current
  directory, and the list of the changes made so far, in their order. Paths are compared as
  strings: the paths of the script have no \<^verbatim>\<open>.\<close> or \<^verbatim>\<open>..\<close> component and no doubled
  separator. A failing operation gives the exception and the state it leaves behind.
\<close>

datatype content =
    Text "string list"
  | Json "json dict"
  | Zip "(string \<times> content) list"

datatype node = Dir | File content

datatype event = Mkdir string | Write string content

datatype error = FileExistsError | FileNotFoundError | NotADirectoryError | IsADirectoryError

record world =
  nodes :: "(string \<times> node) list"
  cwd :: string
  events :: "event list"

type_synonym outcome = "error \<times> world + world"

definition path_key :: "world \<Rightarrow> string \<Rightarrow> string" where
  "path_key w p = rstrip_sep (os_path_join (cwd w) [p])"

definition is_dir :: "world \<Rightarrow> string \<Rightarrow> bool" where
  "is_dir w k = (k = [] \<or> map_of (nodes w) k = Some Dir)"

definition os_path_isdir :: "string \<Rightarrow> world \<Rightarrow> bool" where
  "os_path_isdir p w = (map_of (nodes w) (path_key w p) = Some Dir)"

text \<open>
  The exception of a path that does not lead to a directory: on the way down, the first name
  that is not a directory is either a regular file (\<^verbatim>\<open>ENOTDIR\<close>) or not there
  (\<^verbatim>\<open>ENOENT\<close>).
\<close>

definition lookup_error :: "world \<Rightarrow> string \<Rightarrow> error" where
  "lookup_error w k =
     (case find (\<lambda>a. map_of (nodes w) a \<noteq> Some Dir) (ancestors k) of
        None \<Rightarrow> FileNotFoundError
      | Some a \<Rightarrow> (if map_of (nodes w) a = None then FileNotFoundError else NotADirectoryError))"

definition os_mkdir :: "string \<Rightarrow> world \<Rightarrow> outcome" where
  "os_mkdir p w =
     (let k = path_key w p in
      if p = [] then Inl (FileNotFoundError, w)
      else if map_of (nodes w) k \<noteq> None then Inl (FileExistsError, w)
      else if \<not> is_dir w (os_path_dirname k) then Inl (lookup_error w (os_path_dirname k), w)
      else Inr (w\<lparr>nodes := nodes w @ [(k, Dir)], events := events w @ [Mkdir k]\<rparr>))"

text \<open>
  \<^verbatim>\<open>os.makedirs(name, exist_ok=True)\<close>: every directory on the way that is not there is
  made; one that is there as a directory is left alone; a regular file in the way, or an
  empty name, raises.
\<close>

fun makedirs_each :: "string list \<Rightarrow> world \<Rightarrow> outcome" where
  "makedirs_each [] w = Inr w"
| "makedirs_each (a # as) w =
     (case map_of (nodes w) (path_key w a) of
        Some Dir \<Rightarrow> makedirs_each as w
      | Some (File c) \<Rightarrow> Inl (if as = [] then FileExistsError else NotADirectoryError, w)
      | None \<Rightarrow>
          (case os_mkdir a w of
             Inl e \<Rightarrow> Inl e
           | Inr w' \<Rightarrow> makedirs_each as w'))"

definition os_makedirs :: "string \<Rightarrow> world \<Rightarrow> outcome" where
  "os_makedirs name w =
     (if name = [] then Inl (FileNotFoundError, w) else makedirs_each (ancestors name) w)"

text \<open>\<^verbatim>\<open>with open(p, 'w') as file\<close> and what is written to it, as one step.\<close>

definition open_write :: "string \<Rightarrow> content \<Rightarrow> world \<Rightarrow> outcome" where
  "open_write p c w =
     (let k = path_key w p in
      if map_of (nodes w) k = Some Dir then Inl (IsADirectoryError, w)
      else if \<not> is_dir w (os_path_dirname k) then Inl (lookup_error w (os_path_dirname k), w)
      else Inr (w\<lparr>nodes := dict_set k (File c) (nodes w), events := events w @ [Write k c]\<rparr>))"

definition os_chdir :: "string \<Rightarrow> world \<Rightarrow> outcome" where
  "os_chdir p w =
     (if os_path_isdir p w then Inr (w\<lparr>cwd := os_path_join (cwd w) [p]\<rparr>)
      else Inl (lookup_error w (path_key w p), w))"


section \<open>The archival step\<close>

text \<open>
  \<^verbatim>\<open>
  def zipfolder(zip_name, target_dir):
      zipobj = zipfile.ZipFile(zip_name, 'w', zipfile.ZIP_DEFLATED)
      rootlen = len(target_dir) + 1
      for base, dirs, files in os.walk(target_dir):
          for file in files:
              fn = os.path.join(base, file)
              zipobj.write(fn, fn[rootlen:])
  \<close>
  The archive holds the regular files \<^verbatim>\<open>os.walk\<close> comes to, each under its name cut after
  \<open>rootlen\<close> characters. \<^verbatim>\<open>os.walk\<close> goes through the tree from the top: for a directory it
  gives the regular files that are entries of the directory, then it walks the entries that
  are directories, one after the other. An entry of the directory \<open>base\<close> is a node whose
  path is \<open>base\<close>, a separator and a name. The order of the entries of one directory is the
  order in which the system lists them; here it is the order of the state's list. The
  archive lies outside the tree it archives in the one call of the script.
\<close>

definition child :: "string \<Rightarrow> string \<Rightarrow> bool" where
  "child base k =
     (prefix (base @ ''/'') k
      \<and> drop (Suc (length base)) k \<noteq> [] \<and> CHR ''/'' \<notin> set (drop (Suc (length base)) k))"

definition files_in :: "(string \<times> node) list \<Rightarrow> string \<Rightarrow> (string \<times> content) list" where
  "files_in ns base =
     List.map_filter
       (\<lambda>(k, n). case n of Dir \<Rightarrow> None | File c \<Rightarrow> if child base k then Some (k, c) else None) ns"

definition dirs_in :: "(string \<times> node) list \<Rightarrow> string \<Rightarrow> string list" where
  "dirs_in ns base = map fst (filter (\<lambda>(k, n). n = Dir \<and> child base k) ns)"

function walk :: "(string \<times> node) list \<Rightarrow> string \<Rightarrow> (string \<times> content) list" where
  "walk ns base = files_in ns base @ concat (map (walk ns) (dirs_in ns base))"
  by pat_completeness auto
termination
proof (relation "measure (\<lambda>(ns, base). sum_list (map (\<lambda>kn. length (fst kn)) ns) - length base)")
  show "wf (measure (\<lambda>(ns, base). sum_list (map (\<lambda>kn. length (fst kn)) ns) - length base))"
    by simp
next
  fix ns :: "(string \<times> node) list" and base k :: string
  assume "k \<in> set (dirs_in ns base)"
  then obtain n where m: "(k, n) \<in> set ns" and c: "child base k"
    by (auto simp: dirs_in_def)
  from c have "length base < length k"
    by (auto simp: child_def prefix_def)
  moreover from m have "length k \<le> sum_list (map (\<lambda>kn. length (fst kn)) ns)"
    using member_le_sum_list[of "length k" "map (\<lambda>kn. length (fst kn)) ns"] by force
  ultimately show "((ns, k), (ns, base)) \<in> measure (\<lambda>(ns, base). sum_list (map (\<lambda>kn. length (fst kn)) ns) - length base)"
    by simp
qed

declare walk.simps [simp del]

definition walk_files :: "string \<Rightarrow> world \<Rightarrow> (string \<times> content) list" where
  "walk_files target_dir w =
     (let t = path_key w target_dir in
      if map_of (nodes w) t = Some Dir
      then map (\<lambda>(k, c). (os_path_join target_dir [drop (Suc (length t)) k], c)) (walk (nodes w) t)
      else [])"

definition zipfolder :: "string \<Rightarrow> string \<Rightarrow> world \<Rightarrow> outcome" where
  "zipfolder zip_name target_dir w =
     (let rootlen = length target_dir + 1
      in open_write zip_name
           (Zip (map (\<lambda>(fn, c). (drop rootlen fn, c)) (walk_files target_dir w))) w)"

definition gitignore_lines :: "string list" where
  "gitignore_lines =
     [''# This folder does not belong on git. Not even as an empty folder, so we ignore everything, incl. this file.'',
      ''*'']"

text \<open>
  \<^verbatim>\<open>
  if not os.path.isdir('assets_backups'):
      os.mkdir('assets_backups')
      with open('assets_backups/.gitignore', 'w') as f:
          print(..., file=f)
          print('*', file=f)
  zipfolder('assets_backups/{}.zip'.format(int(time.time())), 'src/main/resources/assets/tfc')
  os.chdir('src/main/resources/assets/tfc/')
  \<close>
  The clock's \<^verbatim>\<open>int(time.time())\<close> is the argument \<open>now\<close>.
\<close>

definition archive_step :: "int \<Rightarrow> world \<Rightarrow> outcome" where
  "archive_step now w =
     (case (if \<not> os_path_isdir ''assets_backups'' w
            then (case os_mkdir ''assets_backups'' w of
                    Inl e \<Rightarrow> Inl e
                  | Inr w1 \<Rightarrow> open_write ''assets_backups/.gitignore'' (Text gitignore_lines) w1)
            else Inr w) of
        Inl e \<Rightarrow> Inl e
      | Inr w2 \<Rightarrow>
          zipfolder (''assets_backups/'' @ string_of_int now @ ''.zip'')
            ''src/main/resources/assets/tfc'' w2)"


section \<open>The emission primitives\<close>

datatype texture_key = Slot string | Group "string list"

text \<open>
  \<^verbatim>\<open>
  _variants = {'normal': [{}]}
  if variants:
      _variants.update(variants)
  \<close>
  An absent table and an empty one are both false.
\<close>

definition blockstate_variants :: "json dict option \<Rightarrow> json dict" where
  "blockstate_variants variants =
     (let variants0 = [(''normal'', JList [JDict []])]
      in case variants of
           None \<Rightarrow> variants0
         | Some vs \<Rightarrow> if vs = [] then variants0 else dict_update variants0 vs)"

text \<open>
  \<^verbatim>\<open>
  _textures = {}
  for key, val in textures.items():
      if isinstance(key, str):
          _textures[key] = val
      else:
          for x in key:
              _textures[x] = val
  \<close>
  The docstring gives the texture values as strings.
\<close>

definition blockstate_textures :: "(texture_key \<times> string) list \<Rightarrow> string dict" where
  "blockstate_textures textures =
     foldl (\<lambda>acc (key, val).
              case key of
                Slot k \<Rightarrow> dict_set k val acc
              | Group xs \<Rightarrow> foldl (\<lambda>acc' x. dict_set x val acc') acc xs)
       [] textures"

definition json_of_textures :: "string dict \<Rightarrow> json" where
  "json_of_textures ts = JDict (map (\<lambda>(k, v). (k, JStr v)) ts)"

text \<open>The object \<^verbatim>\<open>blockstate\<close> hands to \<^verbatim>\<open>json.dump\<close>.\<close>

definition blockstate_descriptor ::
  "string option \<Rightarrow> (texture_key \<times> string) list \<Rightarrow> json dict option \<Rightarrow> json dict" where
  "blockstate_descriptor model_name textures variants =
     del_none
       [(''__comment'', JStr ''Generated by generateResources.py function: blockstate''),
        (''forge_marker'', JInt 1),
        (''defaults'', JDict
           [(''model'', case model_name of None \<Rightarrow> JNull | Some m \<Rightarrow> JStr m),
            (''textures'', json_of_textures (blockstate_textures textures))]),
        (''variants'', JDict (blockstate_variants variants))]"

definition blockstate ::
  "string list \<Rightarrow> string option \<Rightarrow> (texture_key \<times> string) list \<Rightarrow> json dict option \<Rightarrow>
     world \<Rightarrow> outcome" where
  "blockstate filename_parts model_name textures variants w =
     (let p = os_path_join ''blockstates'' filename_parts @ ''.json''
      in case os_makedirs (os_path_dirname p) w of
           Inl e \<Rightarrow> Inl e
         | Inr w' \<Rightarrow>
             open_write p (Json (blockstate_descriptor model_name textures variants)) w')"

definition cube_all ::
  "string list \<Rightarrow> string \<Rightarrow> json dict option \<Rightarrow> string option \<Rightarrow> world \<Rightarrow> outcome" where
  "cube_all filename_parts texture variants model_name =
     blockstate filename_parts model_name [(Slot ''all'', texture)] variants"

text \<open>The object \<^verbatim>\<open>model\<close> hands to \<^verbatim>\<open>json.dump\<close>; the texture table may be \<^verbatim>\<open>None\<close>.\<close>

definition model_descriptor :: "string \<Rightarrow> string dict option \<Rightarrow> json dict" where
  "model_descriptor parent textures =
     del_none
       [(''__comment'', JStr ''Generated by generateResources.py function: model''),
        (''parent'', JStr parent),
        (''textures'', case textures of None \<Rightarrow> JNull | Some ts \<Rightarrow> json_of_textures ts)]"

definition model :: "string list \<Rightarrow> string \<Rightarrow> string dict option \<Rightarrow> world \<Rightarrow> outcome" where
  "model filename_parts parent textures w =
     (let p = os_path_join ''models'' filename_parts @ ''.json''
      in case os_makedirs (os_path_dirname p) w of
           Inl e \<Rightarrow> Inl e
         | Inr w' \<Rightarrow> open_write p (Json (model_descriptor parent textures)) w')"

text \<open>
  \<^verbatim>\<open>
  def item(filename_parts, *layers, parent='item/generated'):
      model(('item', *filename_parts), parent,
            None if len(layers) == 0
            else {'layer%d' % i: v for i, v in enumerate(layers)})
  \<close>
\<close>

definition item_textures :: "string list \<Rightarrow> string dict option" where
  "item_textures layers =
     (if length layers = 0 then None
      else Some (dict_of (map (\<lambda>(i, v). (''layer'' @ string_of_nat i, v)) (enumerate 0 layers))))"

definition item :: "string list \<Rightarrow> string list \<Rightarrow> string \<Rightarrow> world \<Rightarrow> outcome" where
  "item filename_parts layers parent =
     model (''item'' # filename_parts) parent (item_textures layers)"

text \<open>Reading a value at a path of keys, as a consumer of the written file does.\<close>

fun json_at :: "string list \<Rightarrow> json \<Rightarrow> json option" where
  "json_at [] v = Some v"
| "json_at (k # ks) (JDict d) = (case map_of d k of None \<Rightarrow> None | Some v \<Rightarrow> json_at ks v)"
| "json_at (k # ks) v = None"

text \<open>The slots a texture key names, and a texture table with every group written out.\<close>

fun slot_names :: "texture_key \<Rightarrow> string list" where
  "slot_names (Slot k) = [k]"
| "slot_names (Group xs) = xs"

definition expand_textures :: "(texture_key \<times> string) list \<Rightarrow> (string \<times> string) list" where
  "expand_textures textures =
     concat (map (\<lambda>(key, val). map (\<lambda>x. (x, val)) (slot_names key)) textures)"


section \<open>Auxiliary notions for the store\<close>

text \<open>
  \<open>prunes H h\<close>: the store \<open>h\<close> comes from \<open>H\<close> by taking away entries only, and only
  entries under a key that had a null value in \<open>H\<close>. A set of objects is closed when the
  dictionary values of its objects lead to its objects.
\<close>

definition prunes :: "heap \<Rightarrow> heap \<Rightarrow> bool" where
  "prunes H h = (\<forall>b. set (h b) \<subseteq> set (H b) \<and> (\<forall>kv \<in> set (H b) - set (h b). (fst kv, PNone) \<in> set (H b)))"

definition closed_under :: "nat set \<Rightarrow> heap \<Rightarrow> bool" where
  "closed_under R h = (\<forall>b \<in> R. \<forall>k c. (k, PRef c) \<in> set (h b) \<longrightarrow> c \<in> R)"

text \<open>
  A store for the variant table of a button: the table itself at 0, with a null entry, a
  list of one override object (at 1, with a null inside) and a nested table (at 2).
\<close>

definition button_heap :: heap where
  "button_heap = (\<lambda>a. [])
     (0 := [(''normal'', PNone), (''inventory'', PList [PRef 1]), (''facing'', PRef 2)],
      1 := [(''model'', PNone)],
      2 := [(''x'', PNone), (''y'', PInt 90)])"


section \<open>The enumeration tables\<close>

text \<open>
  The tables of the script, in the order of their text. A dictionary is the list of its
  entries in insertion order; \<^verbatim>\<open>STEEL\<close> is a set, and the order in which a run iterates
  over it is an argument of the run.
\<close>

definition ROCK_TYPES :: "string list" where
  "ROCK_TYPES =
     [''granite'', ''diorite'', ''gabbro'', ''shale'', ''claystone'', ''rocksalt'',
      ''limestone'', ''conglomerate'', ''dolomite'', ''chert'', ''chalk'', ''rhyolite'',
      ''basalt'', ''andesite'', ''dacite'', ''quartzite'', ''slate'', ''phyllite'', ''schist'',
      ''gneiss'', ''marble'']"

definition ROCK_CATEGORIES :: "string list" where
  "ROCK_CATEGORIES =
     [''sedimentary'', ''metamorphic'', ''igneous_intrusive'', ''igneous_extrusive'']"

definition FULLBLOCK_TYPES :: "string list" where
  "FULLBLOCK_TYPES =
     [''raw'', ''smooth'', ''cobble'', ''bricks'', ''sand'', ''gravel'', ''dirt'', ''clay'']"

definition GRASS_TYPES :: "string list" where
  "GRASS_TYPES =
     [''grass'', ''dry_grass'']"

definition ORE_TYPES :: "(string \<times> bool) list" where
  "ORE_TYPES =
     [(''native_copper'', True), (''native_gold'', True), (''native_platinum'', True),
      (''hematite'', True), (''native_silver'', True), (''cassiterite'', True),
      (''galena'', True), (''bismuthinite'', True), (''garnierite'', True),
      (''malachite'', True), (''magnetite'', True), (''limonite'', True),
      (''sphalerite'', True), (''tetrahedrite'', True), (''bituminous_coal'', False),
      (''lignite'', False), (''kaolinite'', False), (''gypsum'', False), (''satinspar'', False),
      (''selenite'', False), (''graphite'', False), (''kimberlite'', False),
      (''petrified_wood'', False), (''sulfur'', False), (''jet'', False),
      (''microcline'', False), (''pitchblende'', False), (''cinnabar'', False),
      (''cryolite'', False), (''saltpeter'', False), (''serpentine'', False),
      (''sylvite'', False), (''borax'', False), (''olivine'', False), (''lapis_lazuli'', False)]"

definition POWDERS :: "string list" where
  "POWDERS =
     [''flux'', ''coke'', ''kaolinite_powder'', ''graphite_powder'', ''sulfur_powder'',
      ''saltpeter_powder'', ''hematite_powder'', ''lapis_lazuli_powder'', ''limonite_powder'',
      ''malachite_powder'', ''salt'', ''fertilizer'']"

definition WOOD_TYPES :: "string list" where
  "WOOD_TYPES =
     [''ash'', ''aspen'', ''birch'', ''chestnut'', ''douglas_fir'', ''hickory'', ''maple'',
      ''oak'', ''pine'', ''sequoia'', ''spruce'', ''sycamore'', ''white_cedar'', ''willow'',
      ''kapok'', ''acacia'', ''rosewood'', ''blackwood'', ''palm'']"

definition GEM_TYPES :: "string list" where
  "GEM_TYPES =
     [''agate'', ''amethyst'', ''beryl'', ''diamond'', ''emerald'', ''garnet'', ''jade'',
      ''jasper'', ''opal'', ''ruby'', ''sapphire'', ''topaz'', ''tourmaline'']"

definition GEM_GRADES :: "string list" where
  "GEM_GRADES =
     [''normal'', ''flawed'', ''flawless'', ''chipped'', ''exquisite'']"

definition METAL_TYPES :: "(string \<times> bool) list" where
  "METAL_TYPES =
     [(''bismuth'', False), (''bismuth_bronze'', True), (''black_bronze'', True),
      (''brass'', False), (''bronze'', True), (''copper'', True), (''gold'', False),
      (''lead'', False), (''nickel'', False), (''rose_gold'', False), (''silver'', False),
      (''tin'', False), (''zinc'', False), (''sterling_silver'', False),
      (''wrought_iron'', True), (''pig_iron'', False), (''steel'', True), (''platinum'', False),
      (''black_steel'', True), (''blue_steel'', True), (''red_steel'', True)]"

definition METAL_ITEMS :: "(string \<times> bool) list" where
  "METAL_ITEMS =
     [(''ingot'', False), (''double_ingot'', False), (''scrap'', False), (''dust'', False),
      (''nugget'', False), (''sheet'', False), (''double_sheet'', False), (''anvil'', True),
      (''tuyere'', True), (''lamp'', False), (''pick'', True), (''pick_head'', True),
      (''shovel'', True), (''shovel_head'', True), (''axe'', True), (''axe_head'', True),
      (''hoe'', True), (''hoe_head'', True), (''chisel'', True), (''chisel_head'', True),
      (''sword'', True), (''sword_blade'', True), (''mace'', True), (''mace_head'', True),
      (''saw'', True), (''saw_blade'', True), (''javelin'', True), (''javelin_head'', True),
      (''hammer'', True), (''hammer_head'', True), (''propick'', True),
      (''propick_head'', True), (''knife'', True), (''knife_blade'', True), (''scythe'', True),
      (''scythe_blade'', True), (''unfinished_chestplate'', True), (''chestplate'', True),
      (''unfinished_greaves'', True), (''greaves'', True), (''unfinished_boots'', True),
      (''boots'', True), (''unfinished_helmet'', True), (''helmet'', True)]"

definition STEEL :: "string set" where
  "STEEL = {''steel'', ''blue_steel'', ''red_steel'', ''black_steel''}"

definition TOOLS :: "string list" where
  "TOOLS =
     [''pick'', ''propick'', ''shovel'', ''axe'', ''hoe'', ''chisel'', ''sword'', ''mace'',
      ''saw'', ''javelin'', ''hammer'', ''knife'', ''scythe'']"

definition FLUIDS :: "(string \<times> string) list" where
  "FLUIDS =
     [(''salt_water'', ''salt_water''), (''fresh_water'', ''fresh_water''),
      (''hot_water'', ''hot_water''), (''finite_salt_water'', ''salt_water''),
      (''finite_fresh_water'', ''fresh_water''), (''finite_hot_water'', ''hot_water''),
      (''rum'', ''rum''), (''beer'', ''beer''), (''whiskey'', ''whiskey''),
      (''rye_whiskey'', ''rye_whiskey''), (''corn_whiskey'', ''corn_whiskey''),
      (''sake'', ''sake''), (''vodka'', ''vodka''), (''cider'', ''cider''),
      (''vinegar'', ''vinegar''), (''brine'', ''brine''), (''milk'', ''milk''),
      (''olive_oil'', ''olive_oil''), (''tannin'', ''tannin''), (''limewater'', ''limewater''),
      (''milk_curdled'', ''milk_curdled''), (''milk_vinegar'', ''milk_vinegar'')]"

definition DOOR_VARIANTS :: "json dict" where
  "DOOR_VARIANTS =
     [(''normal'', JNull),
      (''facing=east,half=lower,hinge=left,open=false'', JDict [(''model'', JStr ''door_bottom'')]),
      (''facing=south,half=lower,hinge=left,open=false'', JDict [(''model'', JStr ''door_bottom''), (''y'', JInt 90)]),
      (''facing=west,half=lower,hinge=left,open=false'', JDict [(''model'', JStr ''door_bottom''), (''y'', JInt 180)]),
      (''facing=north,half=lower,hinge=left,open=false'', JDict [(''model'', JStr ''door_bottom''), (''y'', JInt 270)]),
      (''facing=east,half=lower,hinge=right,open=false'', JDict [(''model'', JStr ''door_bottom_rh'')]),
      (''facing=south,half=lower,hinge=right,open=false'', JDict [(''model'', JStr ''door_bottom_rh''), (''y'', JInt 90)]),
      (''facing=west,half=lower,hinge=right,open=false'', JDict [(''model'', JStr ''door_bottom_rh''), (''y'', JInt 180)]),
      (''facing=north,half=lower,hinge=right,open=false'', JDict [(''model'', JStr ''door_bottom_rh''), (''y'', JInt 270)]),
      (''facing=east,half=lower,hinge=left,open=true'', JDict [(''model'', JStr ''door_bottom_rh''), (''y'', JInt 90)]),
      (''facing=south,half=lower,hinge=left,open=true'', JDict [(''model'', JStr ''door_bottom_rh''), (''y'', JInt 180)]),
      (''facing=west,half=lower,hinge=left,open=true'', JDict [(''model'', JStr ''door_bottom_rh''), (''y'', JInt 270)]),
      (''facing=north,half=lower,hinge=left,open=true'', JDict [(''model'', JStr ''door_bottom_rh'')]),
      (''facing=east,half=lower,hinge=right,open=true'', JDict [(''model'', JStr ''door_bottom''), (''y'', JInt 270)]),
      (''facing=south,half=lower,hinge=right,open=true'', JDict [(''model'', JStr ''door_bottom'')]),
      (''facing=west,half=lower,hinge=right,open=true'', JDict [(''model'', JStr ''door_bottom''), (''y'', JInt 90)]),
      (''facing=north,half=lower,hinge=right,open=true'', JDict [(''model'', JStr ''door_bottom''), (''y'', JInt 180)]),
      (''facing=east,half=upper,hinge=left,open=false'', JDict [(''model'', JStr ''door_top'')]),
      (''facing=south,half=upper,hinge=left,open=false'', JDict [(''model'', JStr ''door_top''), (''y'', JInt 90)]),
      (''facing=west,half=upper,hinge=left,open=false'', JDict [(''model'', JStr ''door_top''), (''y'', JInt 180)]),
      (''facing=north,half=upper,hinge=left,open=false'', JDict [(''model'', JStr ''door_top''), (''y'', JInt 270)]),
      (''facing=east,half=upper,hinge=right,open=false'', JDict [(''model'', JStr ''door_top_rh'')]),
      (''facing=south,half=upper,hinge=right,open=false'', JDict [(''model'', JStr ''door_top_rh''), (''y'', JInt 90)]),
      (''facing=west,half=upper,hinge=right,open=false'', JDict [(''model'', JStr ''door_top_rh''), (''y'', JInt 180)]),
      (''facing=north,half=upper,hinge=right,open=false'', JDict [(''model'', JStr ''door_top_rh''), (''y'', JInt 270)]),
      (''facing=east,half=upper,hinge=left,open=true'', JDict [(''model'', JStr ''door_top_rh''), (''y'', JInt 90)]),
      (''facing=south,half=upper,hinge=left,open=true'', JDict [(''model'', JStr ''door_top_rh''), (''y'', JInt 180)]),
      (''facing=west,half=upper,hinge=left,open=true'', JDict [(''model'', JStr ''door_top_rh''), (''y'', JInt 270)]),
      (''facing=north,half=upper,hinge=left,open=true'', JDict [(''model'', JStr ''door_top_rh'')]),
      (''facing=east,half=upper,hinge=right,open=true'', JDict [(''model'', JStr ''door_top''), (''y'', JInt 270)]),
      (''facing=south,half=upper,hinge=right,open=true'', JDict [(''model'', JStr ''door_top'')]),
      (''facing=west,half=upper,hinge=right,open=true'', JDict [(''model'', JStr ''door_top''), (''y'', JInt 90)]),
      (''facing=north,half=upper,hinge=right,open=true'', JDict [(''model'', JStr ''door_top''), (''y'', JInt 180)])]"

definition TRAPDOOR_VARIANTS :: "json dict" where
  "TRAPDOOR_VARIANTS =
     [(''normal'', JNull),
      (''facing=north,half=bottom,open=false'', JDict [(''model'', JStr ''trapdoor_bottom'')]),
      (''facing=south,half=bottom,open=false'', JDict [(''model'', JStr ''trapdoor_bottom'')]),
      (''facing=east,half=bottom,open=false'', JDict [(''model'', JStr ''trapdoor_bottom'')]),
      (''facing=west,half=bottom,open=false'', JDict [(''model'', JStr ''trapdoor_bottom'')]),
      (''facing=north,half=top,open=false'', JDict [(''model'', JStr ''trapdoor_top'')]),
      (''facing=south,half=top,open=false'', JDict [(''model'', JStr ''trapdoor_top'')]),
      (''facing=east,half=top,open=false'', JDict [(''model'', JStr ''trapdoor_top'')]),
      (''facing=west,half=top,open=false'', JDict [(''model'', JStr ''trapdoor_top'')]),
      (''facing=north,half=bottom,open=true'', JDict [(''model'', JStr ''trapdoor_open'')]),
      (''facing=south,half=bottom,open=true'', JDict [(''model'', JStr ''trapdoor_open''), (''y'', JInt 180)]),
      (''facing=east,half=bottom,open=true'', JDict [(''model'', JStr ''trapdoor_open''), (''y'', JInt 90)]),
      (''facing=west,half=bottom,open=true'', JDict [(''model'', JStr ''trapdoor_open''), (''y'', JInt 270)]),
      (''facing=north,half=top,open=true'', JDict [(''model'', JStr ''trapdoor_open'')]),
      (''facing=south,half=top,open=true'', JDict [(''model'', JStr ''trapdoor_open''), (''y'', JInt 180)]),
      (''facing=east,half=top,open=true'', JDict [(''model'', JStr ''trapdoor_open''), (''y'', JInt 90)]),
      (''facing=west,half=top,open=true'', JDict [(''model'', JStr ''trapdoor_open''), (''y'', JInt 270)])]"

definition STAIR_VARIANTS :: "json dict" where
  "STAIR_VARIANTS =
     [(''normal'', JDict [(''model'', JStr ''stairs'')]),
      (''facing=east,half=bottom,shape=straight'', JDict [(''model'', JStr ''stairs'')]),
      (''facing=west,half=bottom,shape=straight'', JDict [(''model'', JStr ''stairs''), (''y'', JInt 180)]),
      (''facing=south,half=bottom,shape=straight'', JDict [(''model'', JStr ''stairs''), (''y'', JInt 90)]),
      (''facing=north,half=bottom,shape=straight'', JDict [(''model'', JStr ''stairs''), (''y'', JInt 270)]),
      (''facing=east,half=bottom,shape=outer_right'', JDict [(''model'', JStr ''outer_stairs'')]),
      (''facing=west,half=bottom,shape=outer_right'', JDict [(''model'', JStr ''outer_stairs''), (''y'', JInt 180)]),
      (''facing=south,half=bottom,shape=outer_right'', JDict [(''model'', JStr ''outer_stairs''), (''y'', JInt 90)]),
      (''facing=north,half=bottom,shape=outer_right'', JDict [(''model'', JStr ''outer_stairs''), (''y'', JInt 270)]),
      (''facing=east,half=bottom,shape=outer_left'', JDict [(''model'', JStr ''outer_stairs''), (''y'', JInt 270)]),
      (''facing=west,half=bottom,shape=outer_left'', JDict [(''model'', JStr ''outer_stairs''), (''y'', JInt 90)]),
      (''facing=south,half=bottom,shape=outer_left'', JDict [(''model'', JStr ''outer_stairs'')]),
      (''facing=north,half=bottom,shape=outer_left'', JDict [(''model'', JStr ''outer_stairs''), (''y'', JInt 180)]),
      (''facing=east,half=bottom,shape=inner_right'', JDict [(''model'', JStr ''inner_stairs'')]),
      (''facing=west,half=bottom,shape=inner_right'', JDict [(''model'', JStr ''inner_stairs''), (''y'', JInt 180)]),
      (''facing=south,half=bottom,shape=inner_right'', JDict [(''model'', JStr ''inner_stairs''), (''y'', JInt 90)]),
      (''facing=north,half=bottom,shape=inner_right'', JDict [(''model'', JStr ''inner_stairs''), (''y'', JInt 270)]),
      (''facing=east,half=bottom,shape=inner_left'', JDict [(''model'', JStr ''inner_stairs''), (''y'', JInt 270)]),
      (''facing=west,half=bottom,shape=inner_left'', JDict [(''model'', JStr ''inner_stairs''), (''y'', JInt 90)]),
      (''facing=south,half=bottom,shape=inner_left'', JDict [(''model'', JStr ''inner_stairs'')]),
      (''facing=north,half=bottom,shape=inner_left'', JDict [(''model'', JStr ''inner_stairs''), (''y'', JInt 180)]),
      (''facing=east,half=top,shape=straight'', JDict [(''model'', JStr ''stairs''), (''x'', JInt 180)]),
      (''facing=west,half=top,shape=straight'', JDict [(''model'', JStr ''stairs''), (''x'', JInt 180), (''y'', JInt 180)]),
      (''facing=south,half=top,shape=straight'', JDict [(''model'', JStr ''stairs''), (''x'', JInt 180), (''y'', JInt 90)]),
      (''facing=north,half=top,shape=straight'', JDict [(''model'', JStr ''stairs''), (''x'', JInt 180), (''y'', JInt 270)]),
      (''facing=east,half=top,shape=outer_right'', JDict [(''model'', JStr ''outer_stairs''), (''x'', JInt 180), (''y'', JInt 90)]),
      (''facing=west,half=top,shape=outer_right'', JDict [(''model'', JStr ''outer_stairs''), (''x'', JInt 180), (''y'', JInt 270)]),
      (''facing=south,half=top,shape=outer_right'', JDict [(''model'', JStr ''outer_stairs''), (''x'', JInt 180), (''y'', JInt 180)]),
      (''facing=north,half=top,shape=outer_right'', JDict [(''model'', JStr ''outer_stairs''), (''x'', JInt 180)]),
      (''facing=east,half=top,shape=outer_left'', JDict [(''model'', JStr ''outer_stairs''), (''x'', JInt 180)]),
      (''facing=west,half=top,shape=outer_left'', JDict [(''model'', JStr ''outer_stairs''), (''x'', JInt 180), (''y'', JInt 180)]),
      (''facing=south,half=top,shape=outer_left'', JDict [(''model'', JStr ''outer_stairs''), (''x'', JInt 180), (''y'', JInt 90)]),
      (''facing=north,half=top,shape=outer_left'', JDict [(''model'', JStr ''outer_stairs''), (''x'', JInt 180), (''y'', JInt 270)]),
      (''facing=east,half=top,shape=inner_right'', JDict [(''model'', JStr ''inner_stairs''), (''x'', JInt 180), (''y'', JInt 90)]),
      (''facing=west,half=top,shape=inner_right'', JDict [(''model'', JStr ''inner_stairs''), (''x'', JInt 180), (''y'', JInt 270)]),
      (''facing=south,half=top,shape=inner_right'', JDict [(''model'', JStr ''inner_stairs''), (''x'', JInt 180), (''y'', JInt 180)]),
      (''facing=north,half=top,shape=inner_right'', JDict [(''model'', JStr ''inner_stairs''), (''x'', JInt 180)]),
      (''facing=east,half=top,shape=inner_left'', JDict [(''model'', JStr ''inner_stairs''), (''x'', JInt 180)]),
      (''facing=west,half=top,shape=inner_left'', JDict [(''model'', JStr ''inner_stairs''), (''x'', JInt 180), (''y'', JInt 180)]),
      (''facing=south,half=top,shape=inner_left'', JDict [(''model'', JStr ''inner_stairs''), (''x'', JInt 180), (''y'', JInt 90)]),
      (''facing=north,half=top,shape=inner_left'', JDict [(''model'', JStr ''inner_stairs''), (''x'', JInt 180), (''y'', JInt 270)])]"

section \<open>The driver\<close>

text \<open>
  The statements of the script run one after the other, and the first exception ends the
  run. A \<^verbatim>\<open>for\<close> loop is the list of the statements of its rounds.
\<close>

type_synonym stmt = "world \<Rightarrow> outcome"

fun run_all :: "stmt list \<Rightarrow> world \<Rightarrow> outcome" where
  "run_all [] w = Inr w"
| "run_all (s # ss) w = (case s w of Inl e \<Rightarrow> Inl e | Inr w' \<Rightarrow> run_all ss w')"

text \<open>\<^verbatim>\<open>s.replace(old, new)\<close> and \<^verbatim>\<open>s.split('_')[0]\<close>.\<close>

function str_replace :: "string \<Rightarrow> string \<Rightarrow> string \<Rightarrow> string" where
  "str_replace old new s =
     (if old = [] then new @ concat (map (\<lambda>c. c # new) s)
      else if s = [] then []
      else if prefix old s then new @ str_replace old new (drop (length old) s)
      else hd s # str_replace old new (tl s))"
  by pat_completeness auto
termination
  by (relation "measure (\<lambda>(old, new, s). length s)") auto

declare str_replace.simps [simp del]

definition split_head :: "char \<Rightarrow> string \<Rightarrow> string" where
  "split_head sep s = takeWhile (\<lambda>c. c \<noteq> sep) s"

text \<open>The variant tables that several calls build in the same way.\<close>

definition side_overlay_variants :: "string \<Rightarrow> json dict" where
  "side_overlay_variants top_texture =
     dict_of (map (\<lambda>side.
         (side, JDict [(''true'', JDict [(''textures'', JDict [(side, JStr top_texture)])]),
                       (''false'', JDict [])]))
       [''north'', ''south'', ''east'', ''west''])"

definition half_slab_variants :: "json dict" where
  "half_slab_variants =
     [(''half'', JDict [(''bottom'', JDict []), (''top'', JDict [(''model'', JStr ''upper_slab'')])])]"

definition button_variants :: "json dict" where
  "button_variants =
     [(''powered'', JDict [(''false'', JDict []), (''true'', JDict [(''model'', JStr ''button_pressed'')])]),
      (''facing'', JDict
         [(''up'', JDict []),
          (''down'', JDict [(''x'', JInt 180)]),
          (''east'', JDict [(''x'', JInt 90), (''y'', JInt 90)]),
          (''west'', JDict [(''x'', JInt 90), (''y'', JInt 270)]),
          (''south'', JDict [(''x'', JInt 90), (''y'', JInt 180)]),
          (''north'', JDict [(''x'', JInt 90)])]),
      (''inventory'', JList [JDict [(''model'', JStr ''button_inventory'')]])]"

text \<open>Block descriptors: fluids, then the blocks of every rock, then those of every wood.\<close>

definition fluid_blocks :: "stmt list" where
  "fluid_blocks =
     map (\<lambda>(name, fluid).
         blockstate [''fluid'', name] (Some ''forge:fluid'') []
           (Some [(''normal'', JDict
                    [(''transform'', JStr ''forge:default-item''),
                     (''custom'', JDict [(''fluid'', JStr fluid)])])]))
       FLUIDS"

definition rock_blocks :: "string \<Rightarrow> stmt list" where
  "rock_blocks rock_type =
     map (\<lambda>block_type.
         cube_all [block_type, rock_type]
           (''tfc:blocks/stonetypes/'' @ block_type @ ''/'' @ rock_type) None (Some ''cube_all''))
       FULLBLOCK_TYPES
     @ map (\<lambda>block_type.
         blockstate [''ore'', block_type, rock_type] (Some ''tfc:ore'')
           [(Group [''all'', ''particle''], ''tfc:blocks/stonetypes/raw/'' @ rock_type),
            (Slot ''overlay'', ''tfc:blocks/ores/'' @ block_type)]
           None)
       (map fst ORE_TYPES)
     @ map (\<lambda>block_type.
         blockstate [block_type, rock_type] (Some ''tfc:grass'')
           [(Group [''all'', ''particle''], ''tfc:blocks/stonetypes/dirt/'' @ rock_type),
            (Slot ''particle'', ''tfc:blocks/stonetypes/dirt/'' @ rock_type),
            (Slot ''top'', ''tfc:blocks/'' @ block_type @ ''_top''),
            (Group [''north'', ''south'', ''east'', ''west''], ''tfc:blocks/'' @ block_type @ ''_side'')]
           (Some (side_overlay_variants (''tfc:blocks/'' @ block_type @ ''_top''))))
       GRASS_TYPES
     @ [blockstate [''clay_grass'', rock_type] (Some ''tfc:grass'')
          [(Group [''all'', ''particle''], ''tfc:blocks/stonetypes/clay/'' @ rock_type),
           (Slot ''top'', ''tfc:blocks/grass_top''),
           (Group [''north'', ''south'', ''east'', ''west''], ''tfc:blocks/grass_side'')]
          (Some (side_overlay_variants ''tfc:blocks/grass_top''))]
     @ map (\<lambda>block_type.
         blockstate [''wall'', block_type, rock_type] (Some ''tfc:empty'')
           [(Group [''wall'', ''particle''], ''tfc:blocks/stonetypes/'' @ block_type @ ''/'' @ rock_type)]
           (Some
             [(''normal'', JNull),
              (''inventory'', JDict [(''model'', JStr ''wall_inventory'')]),
              (''north'', JDict [(''true'', JDict [(''submodel'', JStr ''wall_side'')]), (''false'', JDict [])]),
              (''east'', JDict [(''true'', JDict [(''submodel'', JStr ''wall_side''), (''y'', JInt 90)]), (''false'', JDict [])]),
              (''south'', JDict [(''true'', JDict [(''submodel'', JStr ''wall_side''), (''y'', JInt 180)]), (''false'', JDict [])]),
              (''west'', JDict [(''true'', JDict [(''submodel'', JStr ''wall_side''), (''y'', JInt 270)]), (''false'', JDict [])]),
              (''up'', JDict [(''true'', JDict [(''submodel'', JStr ''wall_post''), (''y'', JInt 270)]), (''false'', JDict [])])]))
       [''cobble'', ''bricks'']
     @ concat (map (\<lambda>block_type.
         [blockstate [''stairs'', block_type, rock_type] None
            [(Group [''top'', ''bottom'', ''side''], ''tfc:blocks/stonetypes/'' @ block_type @ ''/'' @ rock_type)]
            (Some STAIR_VARIANTS),
          blockstate [''slab'', ''half'', block_type, rock_type] (Some ''half_slab'')
            [(Group [''top'', ''bottom'', ''side''], ''tfc:blocks/stonetypes/'' @ block_type @ ''/'' @ rock_type)]
            (Some half_slab_variants),
          cube_all [''slab'', ''full'', block_type, rock_type]
            (''tfc:blocks/stonetypes/'' @ block_type @ ''/'' @ rock_type) None (Some ''cube_all'')])
       [''smooth'', ''cobble'', ''bricks''])
     @ [blockstate [''stone'', ''button'', rock_type] (Some ''button'')
          [(Group [''texture'', ''particle''], ''tfc:blocks/stonetypes/raw/'' @ rock_type)]
          (Some button_variants)]"

definition wood_blocks :: "string \<Rightarrow> stmt list" where
  "wood_blocks wood_type =
     [blockstate [''wood'', ''log'', wood_type] (Some ''cube_column'')
        [(Group [''particle'', ''side''], ''tfc:blocks/wood/log/'' @ wood_type),
         (Slot ''end'', ''tfc:blocks/wood/top/'' @ wood_type),
         (Slot ''layer0'', ''tfc:items/wood/log/'' @ wood_type)]
        (Some
          [(''axis'', JDict
              [(''y'', JDict []),
               (''z'', JDict [(''x'', JInt 90)]),
               (''x'', JDict [(''x'', JInt 90), (''y'', JInt 90)]),
               (''none'', JDict [(''textures'', JDict [(''end'', JStr (''tfc:blocks/wood/log/'' @ wood_type))])])]),
           (''small'', JDict [(''true'', JDict [(''model'', JStr ''tfc:small_log'')]), (''false'', JDict [])])]),
      cube_all [''wood'', ''planks'', wood_type] (''tfc:blocks/wood/planks/'' @ wood_type) None (Some ''cube_all''),
      cube_all [''wood'', ''leaves'', wood_type] (''tfc:blocks/wood/leaves/'' @ wood_type) None (Some ''leaves''),
      blockstate [''wood'', ''fence'', wood_type] (Some ''fence_post'')
        [(Slot ''texture'', ''tfc:blocks/wood/planks/'' @ wood_type)]
        (Some
          [(''inventory'', JDict [(''model'', JStr ''fence_inventory'')]),
           (''north'', JDict [(''true'', JDict [(''submodel'', JStr ''fence_side'')]), (''false'', JDict [])]),
           (''east'', JDict [(''true'', JDict [(''submodel'', JStr ''fence_side''), (''y'', JInt 90)]), (''false'', JDict [])]),
           (''south'', JDict [(''true'', JDict [(''submodel'', JStr ''fence_side''), (''y'', JInt 180)]), (''false'', JDict [])]),
           (''west'', JDict [(''true'', JDict [(''submodel'', JStr ''fence_side''), (''y'', JInt 270)]), (''false'', JDict [])])]),
      blockstate [''wood'', ''fence_gate'', wood_type] (Some ''fence_gate_closed'')
        [(Slot ''texture'', ''tfc:blocks/wood/planks/'' @ wood_type)]
        (Some
          [(''inventory'', JList [JDict []]),
           (''facing'', JDict
              [(''south'', JDict []),
               (''west'', JDict [(''y'', JInt 90)]),
               (''north'', JDict [(''y'', JInt 180)]),
               (''east'', JDict [(''y'', JInt 270)])]),
           (''open'', JDict [(''true'', JDict [(''model'', JStr ''fence_gate_open'')]), (''false'', JDict [])]),
           (''in_wall'', JDict
              [(''true'', JDict [(''transform'', JDict [(''translation'', JList [JInt 0, JFloat (- 3 / 16), JInt 0])])]),
               (''false'', JDict [])])]),
      blockstate [''wood'', ''sapling'', wood_type] (Some ''cross'')
        [(Group [''cross'', ''layer0''], ''tfc:blocks/saplings/'' @ wood_type)]
        (Some
          [(''inventory'', JDict
              [(''model'', JStr ''builtin/generated''), (''transform'', JStr ''forge:default-item'')])]),
      blockstate [''wood'', ''door'', wood_type] None
        [(Slot ''bottom'', ''tfc:blocks/wood/door/lower/'' @ wood_type),
         (Slot ''top'', ''tfc:blocks/wood/door/upper/'' @ wood_type)]
        (Some DOOR_VARIANTS),
      blockstate [''stairs'', ''wood'', wood_type] None
        [(Group [''top'', ''bottom'', ''side''], ''tfc:blocks/wood/planks/'' @ wood_type)]
        (Some STAIR_VARIANTS),
      blockstate [''slab'', ''half'', ''wood'', wood_type] (Some ''half_slab'')
        [(Group [''top'', ''bottom'', ''side''], ''tfc:blocks/wood/planks/'' @ wood_type)]
        (Some half_slab_variants),
      cube_all [''slab'', ''full'', ''wood'', wood_type] (''tfc:blocks/wood/planks/'' @ wood_type) None
        (Some ''cube_all''),
      blockstate [''wood'', ''trapdoor'', wood_type] None
        [(Slot ''texture'', ''tfc:blocks/wood/trapdoor/'' @ wood_type)]
        (Some TRAPDOOR_VARIANTS),
      blockstate [''wood'', ''chest'', wood_type] (Some ''tfc:chest'')
        [(Slot ''texture'', ''tfc:model/wood/chest/'' @ wood_type),
         (Slot ''particle'', ''tfc:blocks/wood/planks/'' @ wood_type)]
        None,
      blockstate [''wood'', ''chest_trap'', wood_type] (Some ''tfc:chest'')
        [(Slot ''texture'', ''tfc:model/wood/chest_trap/'' @ wood_type),
         (Slot ''particle'', ''tfc:blocks/wood/planks/'' @ wood_type)]
        None,
      blockstate [''wood'', ''button'', wood_type] (Some ''button'')
        [(Group [''texture'', ''particle''], ''tfc:blocks/wood/planks/'' @ wood_type)]
        (Some button_variants),
      blockstate [''wood'', ''bookshelf'', wood_type] (Some ''tfc:bookshelf'')
        [(Group [''all'', ''particle''], ''tfc:blocks/wood/planks/'' @ wood_type),
         (Group [''north'', ''south'', ''east'', ''west''], ''tfc:blocks/wood/bookshelf'')]
        None,
      blockstate [''wood'', ''workbench'', wood_type] (Some ''tfc:workbench'')
        [(Group [''all'', ''particle''], ''tfc:blocks/wood/planks/'' @ wood_type),
         (Slot ''top'', ''tfc:blocks/wood/workbench_top''),
         (Group [''north'', ''south''], ''tfc:blocks/wood/workbench_front''),
         (Group [''east'', ''west''], ''tfc:blocks/wood/workbench_side'')]
        None]"

text \<open>Item descriptors, in the order of the script.\<close>

definition ore_items :: "stmt list" where
  "ore_items =
     concat (map (\<lambda>ore_type.
         (if map_of ORE_TYPES ore_type = Some True
          then map (\<lambda>grade.
                 item [''ore'', grade, ore_type] [''tfc:items/ore/'' @ grade @ ''/'' @ ore_type]
                   ''item/generated'')
               [''poor'', ''rich'', ''small'']
          else [])
         @ [item [''ore'', ''normal'', ore_type] [''tfc:items/ore/'' @ ore_type] ''item/generated''])
       (map fst ORE_TYPES))"

definition rock_items :: "stmt list" where
  "rock_items =
     concat (map (\<lambda>rock_type.
         map (\<lambda>item_type.
             item [item_type, rock_type] [''tfc:items/stonetypes/'' @ item_type @ ''/'' @ rock_type]
               ''item/generated'')
           [''rock'', ''brick''])
       ROCK_TYPES)"

definition door_items :: "stmt list" where
  "door_items =
     concat (map (\<lambda>wood_type.
         [item [''wood'', ''log'', wood_type] [''tfc:items/wood/log/'' @ wood_type] ''item/generated'',
          item [''wood'', ''door'', wood_type] [''tfc:items/wood/door/'' @ wood_type] ''item/generated''])
       WOOD_TYPES)"

definition gem_items :: "stmt list" where
  "gem_items =
     concat (map (\<lambda>gem.
         map (\<lambda>grade.
             item [''gem'', grade, gem] [''tfc:items/gem/'' @ grade @ ''/'' @ gem] ''item/generated'')
           GEM_GRADES)
       GEM_TYPES)"

definition metal_parent :: "string \<Rightarrow> string" where
  "metal_parent item_type =
     (if item_type \<in> set [''knife'', ''javelin''] then ''tfc:item/handheld_flipped''
      else if item_type \<in> set TOOLS then ''item/handheld''
      else ''item/generated'')"

definition steel_items :: "string \<Rightarrow> string list \<Rightarrow> stmt list" where
  "steel_items kind steel =
     concat (map (\<lambda>metal.
         map (\<lambda>type.
             item [kind, ''ingot'', type @ ''_'' @ metal] [''tfc:items/'' @ kind @ ''/ingot/'' @ metal]
               ''item/generated'')
           [''high_carbon'', ''weak''])
       steel)"

definition metal_items :: "string list \<Rightarrow> stmt list" where
  "metal_items steel =
     concat (map (\<lambda>(item_type, tool_item).
         concat (map (\<lambda>(metal, tool_metal).
             if tool_item \<and> \<not> tool_metal then []
             else [item [''metal'', item_type, metal]
                     [''tfc:items/metal/'' @ str_replace ''unfinished_'' [] item_type @ ''/'' @ metal]
                     (metal_parent item_type)])
           METAL_TYPES))
       METAL_ITEMS)
     @ steel_items ''metal'' steel
     @ [item [''metal'', ''ingot'', ''unknown''] [''tfc:items/metal/ingot/'' @ ''unknown''] ''item/generated'']"

definition lumber_items :: "stmt list" where
  "lumber_items =
     map (\<lambda>wood_type.
         item [''wood'', ''lumber'', wood_type] [''tfc:items/wood/lumber/'' @ wood_type] ''item/generated'')
       WOOD_TYPES"

definition rock_tool_items :: "stmt list" where
  "rock_tool_items =
     concat (map (\<lambda>rock_cat.
         map (\<lambda>item_type.
             item [''stone'', item_type, rock_cat] [''tfc:items/stone/'' @ item_type]
               (if item_type \<in> set [''knife'', ''javelin''] then ''tfc:item/handheld_flipped''
                else ''item/handheld''))
           [''axe'', ''shovel'', ''hoe'', ''knife'', ''javelin'', ''hammer''])
       ROCK_CATEGORIES)"

definition powder_items :: "stmt list" where
  "powder_items =
     map (\<lambda>powder. item [''powder'', powder] [''tfc:items/powder/'' @ powder] ''item/generated'') POWDERS"

definition goldpan_items :: "stmt list" where
  "goldpan_items =
     map (\<lambda>type. item [''goldpan'', type] [''tfc:items/goldpan/'' @ type] ''item/generated'')
       [''empty'', ''sand'', ''gravel'', ''clay'', ''dirt'']"

definition heads :: "string list" where
  "heads = map (\<lambda>x. x @ ''_head'') TOOLS @ map (\<lambda>x. x @ ''_blade'') TOOLS"

definition mold_items :: "string list \<Rightarrow> stmt list" where
  "mold_items steel =
     concat (map (\<lambda>metal.
         concat (map (\<lambda>item_type.
             if item_type \<notin> set heads then []
             else [item [''mold'', item_type, metal]
                     [''tfc:items/mold/'' @ metal @ ''/'' @ split_head (CHR ''_'') item_type]
                     ''item/generated''])
           (map fst METAL_ITEMS)))
       [''empty'', ''unfired'', ''copper'', ''bronze'', ''black_bronze'', ''bismuth_bronze''])
     @ map (\<lambda>metal. item [''mold'', ''ingot'', metal] [''tfc:items/mold/ingot/'' @ metal] ''item/generated'')
         (map fst METAL_TYPES @ [''unfired'', ''empty''])
     @ [item [''mold'', ''ingot'', ''unknown''] [''tfc:items/mold/ingot/unknown''] ''item/generated'']
     @ steel_items ''mold'' steel"

definition ceramics_items :: "stmt list" where
  "ceramics_items =
     [item [''ceramics'', ''unfired'', ''vessel''] [''tfc:items/ceramics/unfired/vessel''] ''item/generated'',
      item [''ceramics'', ''fired'', ''vessel''] [''tfc:items/ceramics/fired/vessel''] ''item/generated'',
      item [''ceramics'', ''unfired'', ''vessel_glazed'']
        [''tfc:items/ceramics/unfired/vessel'', ''tfc:items/ceramics/fired/vessel_overlay'']
        ''item/generated'',
      item [''ceramics'', ''fired'', ''vessel_glazed'']
        [''tfc:items/ceramics/fired/vessel'', ''tfc:items/ceramics/fired/vessel_overlay'']
        ''item/generated'',
      item [''ceramics'', ''unfired'', ''spindle''] [''tfc:items/ceramics/unfired/spindle''] ''item/generated'',
      item [''ceramics'', ''fired'', ''spindle''] [''tfc:items/ceramics/fired/spindle''] ''item/generated'',
      item [''ceramics'', ''unfired'', ''pot''] [''tfc:items/ceramics/unfired/pot''] ''item/generated'',
      item [''ceramics'', ''fired'', ''pot''] [''tfc:items/ceramics/fired/pot''] ''item/generated'',
      item [''ceramics'', ''unfired'', ''bowl''] [''tfc:items/ceramics/unfired/bowl''] ''item/generated'',
      item [''ceramics'', ''fired'', ''bowl''] [''tfc:items/ceramics/fired/bowl''] ''item/generated'',
      item [''ceramics'', ''unfired'', ''fire_brick''] [''tfc:items/ceramics/unfired/fire_brick''] ''item/generated'',
      item [''ceramics'', ''fired'', ''fire_brick''] [''tfc:items/ceramics/fired/fire_brick''] ''item/generated'',
      item [''ceramics'', ''unfired'', ''jug''] [''tfc:items/ceramics/unfired/jug''] ''item/generated'',
      item [''ceramics'', ''fired'', ''jug''] [''tfc:items/ceramics/fired/jug''] ''item/generated'',
      item [''ceramics'', ''fire_clay''] [''tfc:items/ceramics/fire_clay''] ''item/generated'']"

definition flat_items :: "stmt list" where
  "flat_items =
     map (\<lambda>rock_cat. item [''flat'', rock_cat] [''tfc:items/flat/'' @ rock_cat] ''item/generated'') ROCK_TYPES
     @ [item [''flat'', ''leather''] [''tfc:items/flat/leather''] ''item/generated'',
        item [''flat'', ''clay''] [''tfc:items/flat/clay''] ''item/generated'',
        item [''flat'', ''fire_clay''] [''tfc:items/flat/fire_clay''] ''item/generated'']"

definition driver :: "string list \<Rightarrow> stmt list" where
  "driver steel =
     fluid_blocks
     @ concat (map rock_blocks ROCK_TYPES)
     @ concat (map wood_blocks WOOD_TYPES)
     @ ore_items @ rock_items @ door_items @ gem_items
     @ metal_items steel
     @ lumber_items @ rock_tool_items @ powder_items @ goldpan_items
     @ mold_items steel
     @ ceramics_items @ flat_items"

text \<open>
  One run of the script: the archival step, the change of directory, the driver. \<open>steel\<close> is
  the order in which this run iterates over \<^verbatim>\<open>STEEL\<close>, and \<open>now\<close> its clock.
\<close>

definition steel_order :: "string list \<Rightarrow> bool" where
  "steel_order steel = (set steel = STEEL \<and> distinct steel)"

definition generate :: "string list \<Rightarrow> int \<Rightarrow> world \<Rightarrow> outcome" where
  "generate steel now w =
     (case archive_step now w of
        Inl e \<Rightarrow> Inl e
      | Inr w1 \<Rightarrow>
          (case os_chdir ''src/main/resources/assets/tfc/'' w1 of
             Inl e \<Rightarrow> Inl e
           | Inr w2 \<Rightarrow> run_all (driver steel) w2))"


section \<open>Auxiliary notions for runs\<close>

text \<open>
  \<^verbatim>\<open>blockstate\<close> and \<^verbatim>\<open>model\<close> end in the same three lines: make the directories of the
  path, open the file, dump the object. \<open>write_json\<close> is that common part; the two functions
  are shown equal to it below.
\<close>

definition write_json :: "string \<Rightarrow> json dict \<Rightarrow> stmt" where
  "write_json p d w =
     (case os_makedirs (os_path_dirname p) w of
        Inl e \<Rightarrow> Inl e
      | Inr w' \<Rightarrow> open_write p (Json d) w')"

text \<open>The state a run ends in, with or without an exception.\<close>

fun outcome_world :: "outcome \<Rightarrow> world" where
  "outcome_world (Inl (e, w)) = w"
| "outcome_world (Inr w) = w"

text \<open>The provenance marker, and a statement that writes one marked descriptor.\<close>

definition marked :: "json dict \<Rightarrow> bool" where
  "marked d =
     (map_of d ''__comment'' = Some (JStr ''Generated by generateResources.py function: blockstate'')
      \<or> map_of d ''__comment'' = Some (JStr ''Generated by generateResources.py function: model''))"

definition emits :: "stmt \<Rightarrow> bool" where
  "emits s = (\<exists>p d. s = write_json p d \<and> marked d)"

fun is_mkdir :: "event \<Rightarrow> bool" where
  "is_mkdir (Mkdir k) = True"
| "is_mkdir (Write k c) = False"

fun is_descriptor_write :: "event \<Rightarrow> bool" where
  "is_descriptor_write (Write k (Json d)) = True"
| "is_descriptor_write ev = False"

text \<open>
  The shape of a real tree: a path names one node, and a node that is not at the top is an
  entry of a directory.
\<close>

definition wf_world :: "world \<Rightarrow> bool" where
  "wf_world w =
     (distinct (map fst (nodes w))
      \<and> list_all (\<lambda>(k, n). CHR ''/'' \<in> set k \<longrightarrow> list_ex (\<lambda>(b, m). m = Dir \<and> child b k) (nodes w))
            (nodes w))"


text \<open>An event of the emission phase: a directory made, or a marked descriptor written.\<close>

definition emitted :: "event \<Rightarrow> bool" where
  "emitted ev = (is_mkdir ev \<or> (\<exists>k d. ev = Write k (Json d) \<and> marked d))"

text \<open>What the archival step does first when the archive root is not there.\<close>

definition created_events :: "world \<Rightarrow> event list" where
  "created_events w =
     (if map_of (nodes w) ''assets_backups'' = None
      then [Mkdir ''assets_backups'', Write ''assets_backups/.gitignore'' (Text gitignore_lines)]
      else [])"

text \<open>The entries of the archive of a state: its files below the output tree, by relative name.\<close>

definition archive_entries :: "world \<Rightarrow> (string \<times> content) list" where
  "archive_entries w =
     map (\<lambda>(fn, c). (drop (length ''src/main/resources/assets/tfc'' + 1) fn, c))
       (walk_files ''src/main/resources/assets/tfc'' w)"

text \<open>The path of the archive of a run started at the clock value \<open>now\<close>.\<close>

definition archive_name :: "int \<Rightarrow> string" where
  "archive_name now = ''assets_backups/'' @ string_of_int now @ ''.zip''"

text \<open>A project directory with an output tree that holds one file of an earlier run.\<close>

definition fresh_checkout :: world where
  "fresh_checkout =
     \<lparr>nodes =
        [(''src'', Dir), (''src/main'', Dir), (''src/main/resources'', Dir),
         (''src/main/resources/assets'', Dir), (''src/main/resources/assets/tfc'', Dir),
         (''src/main/resources/assets/tfc/blockstates'', Dir),
         (''src/main/resources/assets/tfc/blockstates/old.json'', File (Json [(''variants'', JDict [])]))],
      cwd = [], events = []\<rparr>"


text \<open>
  The same directory after an earlier run: the archive root is there, and the output tree
  holds a second file, listed after the first and one level above it.
\<close>

definition used_checkout :: world where
  "used_checkout =
     \<lparr>nodes =
        [(''src'', Dir), (''src/main'', Dir), (''src/main/resources'', Dir),
         (''src/main/resources/assets'', Dir), (''src/main/resources/assets/tfc'', Dir),
         (''src/main/resources/assets/tfc/blockstates'', Dir),
         (''src/main/resources/assets/tfc/blockstates/old.json'', File (Json [(''variants'', JDict [])])),
         (''src/main/resources/assets/tfc/sounds.json'', File (Json [])),
         (''assets_backups'', Dir),
         (''assets_backups/.gitignore'', File (Text gitignore_lines))],
      cwd = [], events = []\<rparr>"


section \<open>Auxiliary notions for the effect of a run on the tree\<close>

text \<open>The tree of a state as a map from paths to nodes.\<close>

type_synonym tree = "string \<Rightarrow> node option"

text \<open>A change of the tree that sets fixed paths to fixed nodes and leaves the rest.\<close>

definition overrides :: "(tree \<Rightarrow> tree) \<Rightarrow> bool" where
  "overrides f = (\<exists>K g. \<forall>m k. f m k = (if k \<in> K then g k else m k))"

text \<open>A statement that, when it returns in the directory \<open>c\<close>, stays there and changes the tree by \<open>f\<close>.\<close>

definition acts :: "string \<Rightarrow> stmt \<Rightarrow> (tree \<Rightarrow> tree) \<Rightarrow> bool" where
  "acts c s f =
     (\<forall>w w'. cwd w = c \<longrightarrow> s w = Inr w' \<longrightarrow> cwd w' = c \<and> map_of (nodes w') = f (map_of (nodes w)))"

text \<open>The key of a path given in the directory \<open>c\<close>.\<close>

definition key_of :: "string \<Rightarrow> string \<Rightarrow> string" where
  "key_of c p = rstrip_sep (os_path_join c [p])"

text \<open>What a successful \<open>write_json\<close> makes of the tree: the directories of the path, then the file.\<close>

definition wj_effect :: "string \<Rightarrow> string \<Rightarrow> json dict \<Rightarrow> tree \<Rightarrow> tree" where
  "wj_effect c p d m =
     (\<lambda>k. if k = key_of c p then Some (File (Json d))
          else if k \<in> key_of c ` set (ancestors (os_path_dirname p)) then Some Dir
          else m k)"

text \<open>The effect of a list of writes, given as paths and descriptors, in their order.\<close>

definition plan_effect :: "string \<Rightarrow> (string \<times> json dict) list \<Rightarrow> tree \<Rightarrow> tree" where
  "plan_effect c pds m = foldl (\<lambda>m' (p, d). wj_effect c p d m') m pds"

text \<open>The writes of the loop over \<^verbatim>\<open>STEEL\<close>, as paths and descriptors.\<close>

definition steel_plan :: "string \<Rightarrow> string list \<Rightarrow> (string \<times> json dict) list" where
  "steel_plan kind steel =
     concat (map (\<lambda>metal.
         map (\<lambda>type.
             (os_path_join ''models'' [''item'', kind, ''ingot'', type @ ''_'' @ metal] @ ''.json'',
              model_descriptor ''item/generated'' (item_textures [''tfc:items/'' @ kind @ ''/ingot/'' @ metal])))
           [''high_carbon'', ''weak''])
       steel)"

text \<open>The directories and the files a list of writes touches.\<close>

definition plan_dirs :: "string \<Rightarrow> (string \<times> json dict) list \<Rightarrow> string set" where
  "plan_dirs c pds = (\<Union>x \<in> set pds. key_of c ` set (ancestors (os_path_dirname (fst x))))"

definition plan_files :: "string \<Rightarrow> (string \<times> json dict) list \<Rightarrow> (string \<times> json dict) list" where
  "plan_files c pds = map (\<lambda>x. (key_of c (fst x), snd x)) pds"

text \<open>No file of the list is a directory of the list, and a path is written with one content only.\<close>

definition tidy_plan :: "string \<Rightarrow> (string \<times> json dict) list \<Rightarrow> bool" where
  "tidy_plan c pds =
     (\<forall>x \<in> set pds. \<forall>y \<in> set pds.
        key_of c (fst x) \<notin> key_of c ` set (ancestors (os_path_dirname (fst y)))
        \<and> (key_of c (fst x) = key_of c (fst y) \<longrightarrow> snd x = snd y))"

text \<open>What \<^verbatim>\<open>os.path.join\<close> puts in front of a relative path in the directory \<open>c\<close>.\<close>

definition cwd_prefix :: "string \<Rightarrow> string" where
  "cwd_prefix c = (if c = [] \<or> last c = CHR ''/'' then c else c @ ''/'')"

text \<open>The elements of \<^verbatim>\<open>STEEL\<close> in the order of the source text.\<close>

definition steel_list :: "string list" where
  "steel_list = [''steel'', ''blue_steel'', ''red_steel'', ''black_steel'']"

text \<open>A list of statements that may depend on the order of \<^verbatim>\<open>STEEL\<close> while its effect does not.\<close>

definition steady :: "string \<Rightarrow> (string list \<Rightarrow> stmt list) \<Rightarrow> bool" where
  "steady c fam = (\<exists>G. overrides G \<and> (\<forall>s. steel_order s \<longrightarrow> acts c (run_all (fam s)) G))"

text \<open>The tree after the archival step, but for the archive itself.\<close>

definition archived_tree :: "world \<Rightarrow> tree" where
  "archived_tree w =
     (if map_of (nodes w) ''assets_backups'' = None
      then (map_of (nodes w))(''assets_backups'' \<mapsto> Dir,
                              ''assets_backups/.gitignore'' \<mapsto> File (Text gitignore_lines))
      else map_of (nodes w))"


section \<open>Auxiliary notions for runs that return\<close>

text \<open>
  The names the driver builds its paths from: not empty, no separator and no dot. A
  directory given by a first name and the names below it.
\<close>

definition nice :: "string \<Rightarrow> bool" where
  "nice x = (x \<noteq> [] \<and> CHR ''/'' \<notin> set x \<and> CHR ''.'' \<notin> set x)"

definition rel_dir :: "string \<Rightarrow> string list \<Rightarrow> string" where
  "rel_dir stem segs = stem @ concat (map ((#) CHR ''/'') segs)"

text \<open>
  A state in the directory \<open>c\<close> in which the emission phase cannot fail: \<open>c\<close> is a
  directory, and below it a node is a directory exactly when no dot is in its path, so
  that no regular file is in the way of a directory of the driver and no directory in the
  way of one of its files. Two states with the same tree outside \<open>c\<close>.
\<close>

definition settled :: "string \<Rightarrow> world \<Rightarrow> bool" where
  "settled c w =
     (cwd w = c @ ''/'' \<and> map_of (nodes w) c = Some Dir
      \<and> (\<forall>k n. map_of (nodes w) (c @ CHR ''/'' # k) = Some n \<longrightarrow> (n = Dir) = (CHR ''.'' \<notin> set k)))"

definition same_outside :: "string \<Rightarrow> world \<Rightarrow> world \<Rightarrow> bool" where
  "same_outside c w w' = (\<forall>k. \<not> prefix (c @ ''/'') k \<longrightarrow> map_of (nodes w') k = map_of (nodes w) k)"

text \<open>A statement that writes a descriptor to a path built from such names.\<close>

definition emits_nicely :: "stmt \<Rightarrow> bool" where
  "emits_nicely st =
     (\<exists>stem parts d. nice stem \<and> parts \<noteq> [] \<and> list_all nice parts
        \<and> st = write_json (os_path_join stem parts @ ''.json'') d)"

text \<open>
  A project directory in which a run at the clock value \<open>now\<close> returns: the run starts
  there, the archive root is a directory or can be made, the name of the archive is not
  taken by a directory, and the output tree is there and as above.
\<close>

definition ready :: "int \<Rightarrow> world \<Rightarrow> bool" where
  "ready now w =
     (cwd w = []
      \<and> (map_of (nodes w) ''assets_backups'' = Some Dir
         \<or> map_of (nodes w) ''assets_backups'' = None
           \<and> map_of (nodes w) ''assets_backups/.gitignore'' \<noteq> Some Dir)
      \<and> map_of (nodes w) (archive_name now) \<noteq> Some Dir
      \<and> map_of (nodes w) ''src/main/resources/assets/tfc'' = Some Dir
      \<and> (\<forall>k n. map_of (nodes w) (''src/main/resources/assets/tfc'' @ CHR ''/'' # k) = Some n
            \<longrightarrow> (n = Dir) = (CHR ''.'' \<notin> set k)))"


section \<open>Dictionaries and pruning: basic facts\<close>

lemma map_of_dict_set: "map_of (dict_set k v d) = (map_of d)(k \<mapsto> v)"
  by (induction d) (auto simp: fun_eq_iff)

lemma dict_set_fresh: "k \<notin> fst ` set d \<Longrightarrow> dict_set k v d = d @ [(k, v)]"
  by (induction d) auto

lemma dict_update_Nil: "dict_update d [] = d"
  by (simp add: dict_update_def)

lemma dict_update_Cons: "dict_update d ((k, v) # e) = dict_update (dict_set k v d) e"
  by (simp add: dict_update_def)

lemma dict_update_append: "dict_update d (e @ e') = dict_update (dict_update d e) e'"
  by (simp add: dict_update_def)

lemma dict_update_distinct: "distinct (map fst (d @ e)) \<Longrightarrow> dict_update d e = d @ e"
proof (induction e arbitrary: d)
  case Nil
  then show ?case by (simp add: dict_update_Nil)
next
  case (Cons kv e)
  obtain k v where kv: "kv = (k, v)" by (cases kv)
  from Cons.prems have fresh: "k \<notin> fst ` set d" and dist: "distinct (map fst ((d @ [(k, v)]) @ e))"
    by (auto simp: kv)
  show ?case
    using Cons.IH[OF dist] fresh by (simp add: kv dict_update_Cons dict_set_fresh)
qed

lemma dict_of_distinct: "distinct (map fst e) \<Longrightarrow> dict_of e = e"
  using dict_update_distinct[of "[]" e] by (simp add: dict_of_def)

lemma map_of_dict_update: "map_of (dict_update d e) = map_of d ++ map_of (rev e)"
proof (induction e arbitrary: d)
  case Nil
  then show ?case by (simp add: dict_update_Nil)
next
  case (Cons kv e)
  obtain k v where kv: "kv = (k, v)" by (cases kv)
  show ?case
    by (simp add: kv dict_update_Cons Cons.IH map_of_dict_set fun_eq_iff map_add_def split: option.splits)
qed

lemma dict_set_head: "dict_set k v ((k, x) # d) = (k, v) # d"
  by simp

lemma dict_set_other: "k \<notin> fst ` set d \<Longrightarrow> k \<noteq> n \<Longrightarrow> dict_set k v ((n, x) # d) = (n, x) # d @ [(k, v)]"
  by (simp add: dict_set_fresh)

lemma dict_update_default:
  assumes "distinct (map fst e)"
  shows "dict_update [(n, x)] e =
           (case map_of e n of
              None \<Rightarrow> (n, x) # e
            | Some v \<Rightarrow> (n, v) # filter (\<lambda>kv. fst kv \<noteq> n) e)"
proof (cases "map_of e n")
  case None
  then have "n \<notin> fst ` set e" by (simp add: map_of_eq_None_iff)
  with assms have "distinct (map fst ([(n, x)] @ e))" by auto
  from dict_update_distinct[OF this] None show ?thesis by simp
next
  case (Some v)
  then have "(n, v) \<in> set e" by (rule map_of_SomeD)
  then obtain e1 e2 where e: "e = e1 @ (n, v) # e2" by (auto simp: in_set_conv_decomp)
  with assms have n1: "n \<notin> fst ` set e1" and n2: "n \<notin> fst ` set e2"
    and d1: "distinct (map fst ([(n, x)] @ e1))" and d2: "distinct (map fst (((n, v) # e1) @ e2))"
    by auto
  have f: "filter (\<lambda>kv. fst kv \<noteq> n) e = e1 @ e2"
  proof -
    have "filter (\<lambda>kv. fst kv \<noteq> n) e1 = e1" using n1 by (induction e1) auto
    moreover have "filter (\<lambda>kv. fst kv \<noteq> n) e2 = e2" using n2 by (induction e2) auto
    ultimately show ?thesis by (simp add: e)
  qed
  have "dict_update [(n, x)] e = dict_update (dict_set n v ((n, x) # e1)) e2"
    using dict_update_distinct[OF d1] by (simp add: e dict_update_append dict_update_Cons)
  also have "\<dots> = (n, v) # e1 @ e2"
    using dict_update_distinct[OF d2] by simp
  finally show ?thesis by (simp add: Some f)
qed

lemma del_none_filter_map:
  "del_none d = map (\<lambda>kv. (fst kv, pruned (snd kv))) (filter (\<lambda>kv. snd kv \<noteq> JNull) d)"
  by (induction d rule: del_none.induct) simp_all

lemma nulls_in_del_none: "nulls_in (JDict (del_none d)) = 0"
  by (induction d rule: del_none.induct) simp_all

lemma list_free_nulls: "list_free v \<Longrightarrow> nulls_anywhere v = nulls_in v"
proof (induction v rule: nulls_anywhere.induct)
  case (3 d)
  have "map (\<lambda>kv. nulls_anywhere (snd kv)) d = map (\<lambda>kv. nulls_in (snd kv)) d"
    using 3 by (auto simp: list_all_iff)
  then show ?case by (simp only: nulls_anywhere.simps nulls_in.simps)
qed simp_all

lemma list_free_del_none: "list_free (JDict d) \<Longrightarrow> list_free (JDict (del_none d))"
  by (induction d rule: del_none.induct) simp_all

lemma del_none_id:
  "\<forall>kv \<in> set d. snd kv \<noteq> JNull \<and> (\<forall>d'. snd kv \<noteq> JDict d') \<Longrightarrow> del_none d = d"
  by (induction d rule: del_none.induct) simp_all

lemma map_of_del_none:
  "distinct (map fst d) \<Longrightarrow> map_of d k = Some v \<Longrightarrow> v \<noteq> JNull \<Longrightarrow>
     map_of (del_none d) k = Some (pruned v)"
  apply (induction d rule: del_none.induct) 
  apply (auto simp: del_none_filter_map split: if_splits)
  done

lemma map_of_del_none_null:
  "map_of (del_none d) k \<noteq> Some JNull"
  apply (induction d rule: del_none.induct) 
  apply (auto  split: if_splits)
  done


section \<open>File operations: basic facts\<close>

lemma os_mkdir_Inr:
  "os_mkdir p w = Inr w' \<Longrightarrow>
     w' = w\<lparr>nodes := nodes w @ [(path_key w p, Dir)], events := events w @ [Mkdir (path_key w p)]\<rparr>
     \<and> map_of (nodes w) (path_key w p) = None"
  by (auto simp: os_mkdir_def Let_def split: if_splits)

lemma path_key_cwd: "cwd w' = cwd w \<Longrightarrow> path_key w' p = path_key w p"
  by (simp add: path_key_def)

lemma makedirs_each_keeps:
  "makedirs_each as w = Inr w' \<Longrightarrow>
     cwd w' = cwd w \<and> (\<forall>k c. map_of (nodes w) k = Some c \<longrightarrow> map_of (nodes w') k = Some c)"
proof (induction as arbitrary: w)
  case Nil
  then show ?case by simp
next
  case (Cons a as)
  show ?case
  proof (cases "map_of (nodes w) (path_key w a)")
    case None
    with Cons.prems obtain w1 where w1: "os_mkdir a w = Inr w1" and r: "makedirs_each as w1 = Inr w'"
      by (auto split: sum.splits)
    from os_mkdir_Inr[OF w1] have c1: "cwd w1 = cwd w"
      and n1: "\<forall>k c. map_of (nodes w) k = Some c \<longrightarrow> map_of (nodes w1) k = Some c"
      by (auto simp: map_add_Some_iff)
    from Cons.IH[OF r] c1 n1 show ?thesis by auto
  next
    case (Some n)
    with Cons.prems have "n = Dir" "makedirs_each as w = Inr w'"
      by (auto split: node.splits)
    with Cons.IH show ?thesis by auto
  qed
qed

lemma os_makedirs_keeps:
  "os_makedirs name w = Inr w' \<Longrightarrow>
     cwd w' = cwd w \<and> (\<forall>k c. map_of (nodes w) k = Some c \<longrightarrow> map_of (nodes w') k = Some c)"
  unfolding os_makedirs_def using makedirs_each_keeps by (auto split: if_splits)

lemma open_write_Inr:
  "open_write p c w = Inr w' \<Longrightarrow>
     w' = w\<lparr>nodes := dict_set (path_key w p) (File c) (nodes w),
            events := events w @ [Write (path_key w p) c]\<rparr>"
  by (auto simp: open_write_def Let_def split: if_splits)

lemma open_write_node:
  "open_write p c w = Inr w' \<Longrightarrow> map_of (nodes w') (path_key w p) = Some (File c)"
  by (auto dest!: open_write_Inr simp: map_of_dict_set)

lemma blockstate_writes:
  assumes "blockstate parts m t v w = Inr w'"
  shows "map_of (nodes w') (path_key w (os_path_join ''blockstates'' parts @ ''.json''))
           = Some (File (Json (blockstate_descriptor m t v)))"
proof -
  let ?p = "os_path_join ''blockstates'' parts @ ''.json''"
  from assms obtain w1 where 1: "os_makedirs (os_path_dirname ?p) w = Inr w1"
    and 2: "open_write ?p (Json (blockstate_descriptor m t v)) w1 = Inr w'"
    by (auto simp: blockstate_def Let_def split: sum.splits)
  from os_makedirs_keeps[OF 1] have "path_key w1 ?p = path_key w ?p" by (simp add: path_key_def)
  with open_write_node[OF 2] show ?thesis by simp
qed

lemma model_writes:
  assumes "model parts parent t w = Inr w'"
  shows "map_of (nodes w') (path_key w (os_path_join ''models'' parts @ ''.json''))
           = Some (File (Json (model_descriptor parent t)))"
proof -
  let ?p = "os_path_join ''models'' parts @ ''.json''"
  from assms obtain w1 where 1: "os_makedirs (os_path_dirname ?p) w = Inr w1"
    and 2: "open_write ?p (Json (model_descriptor parent t)) w1 = Inr w'"
    by (auto simp: model_def Let_def split: sum.splits)
  from os_makedirs_keeps[OF 1] have "path_key w1 ?p = path_key w ?p" by (simp add: path_key_def)
  with open_write_node[OF 2] show ?thesis by simp
qed

lemma blockstate_variants_None: "blockstate_variants None = [(''normal'', JList [JDict []])]"
  by (simp add: blockstate_variants_def)

lemma descriptor_variants:
  "map_of (blockstate_descriptor m t v) ''variants'' = Some (JDict (del_none (blockstate_variants v)))"
  by (cases m) (simp_all add: blockstate_descriptor_def json_of_textures_def)


section \<open>Emission primitives: basic facts\<close>

lemma foldl_dict_set: "foldl (\<lambda>acc x. dict_set x val acc) acc xs = dict_update acc (map (\<lambda>x. (x, val)) xs)"
  by (induction xs arbitrary: acc) (simp_all add: dict_update_def)

lemma blockstate_textures_expand_aux:
  "foldl (\<lambda>acc (key, val).
              case key of
                Slot k \<Rightarrow> dict_set k val acc
              | Group xs \<Rightarrow> foldl (\<lambda>acc' x. dict_set x val acc') acc xs) acc textures
   = dict_update acc (expand_textures textures)"
proof (induction textures arbitrary: acc)
  case Nil
  then show ?case by (simp add: expand_textures_def dict_update_def)
next
  case (Cons kv textures)
  obtain key val where kv: "kv = (key, val)" by (cases kv)
  have e: "expand_textures ((key, val) # textures) = map (\<lambda>x. (x, val)) (slot_names key) @ expand_textures textures"
    by (simp add: expand_textures_def)
  show ?case using e
    by (cases key) (simp_all add: kv Cons.IH dict_update_append dict_update_Cons dict_update_Nil foldl_dict_set)
qed

lemma blockstate_textures_expand:
  "blockstate_textures textures = dict_update [] (expand_textures textures)"
  unfolding blockstate_textures_def by (rule blockstate_textures_expand_aux)

lemma del_none_strs: "del_none (map (\<lambda>(k, v). (k, JStr v)) ts) = map (\<lambda>(k, v). (k, JStr v)) ts"
  by (induction ts) auto

lemma descriptor_textures:
  "json_at [''defaults'', ''textures''] (JDict (blockstate_descriptor m t v))
     = Some (JDict (map (\<lambda>(k, v). (k, JStr v)) (blockstate_textures t)))"
  by (cases m) (simp_all add: blockstate_descriptor_def json_of_textures_def del_none_strs)

lemma map_of_map_JStr: "map_of (map (\<lambda>(k, v). (k, JStr v)) ts) x = map_option JStr (map_of ts x)"
  by (induction ts) auto

lemma digit_char_inj: "a < 10 \<Longrightarrow> b < 10 \<Longrightarrow> digit_char a = digit_char b \<Longrightarrow> a = b"
  using nth_eq_iff_index_eq[of "''0123456789''" a b] by (simp add: digit_char_def)

lemma string_of_nat_nonempty: "string_of_nat n \<noteq> []"
  by (subst string_of_nat.simps) simp

lemma string_of_nat_length_small: "length (string_of_nat n) = 1 \<longleftrightarrow> n < 10"
  by (subst string_of_nat.simps) (simp add: string_of_nat_nonempty)

lemma string_of_nat_inj: "string_of_nat n = string_of_nat m \<Longrightarrow> n = m"
proof (induction n arbitrary: m rule: string_of_nat.induct)
  case (1 n)
  show ?case
  proof (cases "n < 10")
    case True
    with "1.prems" have "length (string_of_nat m) = 1"
      by (metis string_of_nat_length_small)
    then have m: "m < 10" using string_of_nat_length_small by blast
    from "1.prems" True m have "digit_char n = digit_char m"
      by (simp add: string_of_nat.simps[of n] string_of_nat.simps[of m])
    with True m show ?thesis by (rule digit_char_inj)
  next
    case False
    with "1.prems" have "length (string_of_nat m) \<noteq> 1"
      by (metis string_of_nat_length_small)
    then have m: "\<not> m < 10" using string_of_nat_length_small by blast
    from "1.prems" False m have "string_of_nat (n div 10) = string_of_nat (m div 10)"
      and "digit_char (n mod 10) = digit_char (m mod 10)"
      by (simp_all add: string_of_nat.simps[of n] string_of_nat.simps[of m])
    with "1.IH"[OF False] have "n div 10 = m div 10" and "n mod 10 = m mod 10"
      by (auto intro: digit_char_inj)
    then show ?thesis by (metis div_mult_mod_eq)
  qed
qed

lemma map_fst_relabel: "map fst (map (\<lambda>(i, v). (f i, v)) xs) = map f (map fst xs)"
  by (induction xs) auto

lemma enumerate_layer_keys_distinct:
  "distinct (map fst (map (\<lambda>(i, v). (''layer'' @ string_of_nat i, v)) (enumerate n layers)))"
proof -
  have "distinct (map (\<lambda>i. ''layer'' @ string_of_nat i) [n..<n + length layers])"
    by (auto simp: distinct_map inj_on_def dest: string_of_nat_inj)
  then show ?thesis
    by (simp only: map_fst_relabel map_fst_enumerate)
qed

lemma item_textures_layers:
  "layers \<noteq> [] \<Longrightarrow>
     item_textures layers = Some (map (\<lambda>(i, v). (''layer'' @ string_of_nat i, v)) (enumerate 0 layers))"
  using dict_of_distinct[OF enumerate_layer_keys_distinct[of 0 layers]]
  by (simp add: item_textures_def)

lemma model_descriptor_None:
  "model_descriptor parent None =
     [(''__comment'', JStr ''Generated by generateResources.py function: model''), (''parent'', JStr parent)]"
  by (simp add: model_descriptor_def)

lemma model_descriptor_Some:
  "model_descriptor parent (Some ts) =
     [(''__comment'', JStr ''Generated by generateResources.py function: model''), (''parent'', JStr parent),
      (''textures'', JDict (map (\<lambda>(k, v). (k, JStr v)) ts))]"
  by (simp add: model_descriptor_def json_of_textures_def del_none_strs)

lemma del_none_keys: "fst ` set (del_none d) \<subseteq> fst ` set d"
  by (force simp: del_none_filter_map)

lemmas fs_eval = blockstate_def model_def os_makedirs_def ancestors_def os_path_dirname_def rstrip_sep_def
      path_key_def os_mkdir_def is_dir_def open_write_def Let_def

lemma blockstate_variants_Some:
  "vs \<noteq> [] \<Longrightarrow> distinct (map fst vs) \<Longrightarrow>
     blockstate_variants (Some vs) =
       (case map_of vs ''normal'' of
          None \<Rightarrow> (''normal'', JList [JDict []]) # vs
        | Some v \<Rightarrow> (''normal'', v) # filter (\<lambda>kv. fst kv \<noteq> ''normal'') vs)"
  using dict_update_default[of vs "''normal''" "JList [JDict []]"]
  by (simp add: blockstate_variants_def)

lemma os_path_join_item: "os_path_join ''models'' (''item'' # parts) = os_path_join ''models/item'' parts"
  by simp

lemma blockstate_marker:
  "map_of (blockstate_descriptor m t v) ''__comment'' =
     Some (JStr ''Generated by generateResources.py function: blockstate'')"
  by (simp add: blockstate_descriptor_def)

lemma model_marker:
  "map_of (model_descriptor parent ts) ''__comment'' =
     Some (JStr ''Generated by generateResources.py function: model'')"
  by (simp add: model_descriptor_def)


section \<open>The claims\<close>

subsection \<open>Null-pruning on trees\<close>

lemma del_none_limit_depth:
  "del_none_limit n d = (if dict_depth (JDict d) \<le> n then Inr (del_none d) else Inl RecursionError)"
  "del_none_items n d =
     (if foldr max (map (\<lambda>kv. dict_depth (snd kv)) d) 0 \<le> n then Inr (del_none d) else Inl RecursionError)"
proof (induction n d and n d rule: del_none_limit_del_none_items.induct)
  case (1 d)
  then show ?case by simp
next
  case (2 n d)
  then show ?case by simp
next
  case (3 n)
  then show ?case by simp
next
  case (4 n key d)
  then show ?case by simp
next
  case (5 n key d' d)
  then show ?case by (simp split: sum.splits)
qed (simp_all split: sum.splits)

lemma nested_depth: "dict_depth (JDict (nested k)) = Suc k"
  by (induction k) simp_all

lemma nested_list_free: "list_free (JDict (nested k))"
  by (induction k) simp_all

lemma nested_raises: "del_none_limit n (nested n) = Inl RecursionError"
  by (simp only: del_none_limit_depth(1) nested_depth) simp

text \<open>
  Claim C3, as amended. A call of \<open>del_none\<close> with \<open>n\<close> frames left returns exactly when the
  mapping nests at most \<open>n\<close> deep, and raises \<^verbatim>\<open>RecursionError\<close> otherwise. For a mapping
  whose values are null, scalars and nested mappings, what it returns is a mapping with no
  null anywhere in its tree. The entries that stay are those whose value is not null, in
  their order and with their value unchanged, a nested mapping pruned in turn; looked up by
  key, a value that was not null is found again. A mapping whose values are neither null
  nor mappings comes back as it was. For every depth the property does not hold: with the
  1000 frames of the interpreter's default limit, all of them left for the call, a mapping
  of null and nested mappings that nests 1001 deep makes the call raise.
\<close>

theorem del_none_prunes:
  "del_none_limit n d = (if dict_depth (JDict d) \<le> n then Inr (del_none d) else Inl RecursionError)
   \<and> del_none d = map (\<lambda>kv. (fst kv, pruned (snd kv))) (filter (\<lambda>kv. snd kv \<noteq> JNull) d)
   \<and> nulls_in (JDict (del_none d)) = 0
   \<and> (list_free (JDict d) \<longrightarrow> list_free (JDict (del_none d)) \<and> nulls_anywhere (JDict (del_none d)) = 0)
   \<and> (distinct (map fst d) \<longrightarrow>
        (\<forall>k v. map_of d k = Some v \<and> v \<noteq> JNull \<longrightarrow> map_of (del_none d) k = Some (pruned v)))
   \<and> (\<forall>k. map_of (del_none d) k \<noteq> Some JNull)
   \<and> ((\<forall>kv \<in> set d. snd kv \<noteq> JNull \<and> (\<forall>d'. snd kv \<noteq> JDict d')) \<longrightarrow> del_none d = d)"
proof (intro conjI impI allI)
  show "del_none_limit n d = (if dict_depth (JDict d) \<le> n then Inr (del_none d) else Inl RecursionError)"
    by (rule del_none_limit_depth(1))
  show "del_none d = map (\<lambda>kv. (fst kv, pruned (snd kv))) (filter (\<lambda>kv. snd kv \<noteq> JNull) d)"
    by (rule del_none_filter_map)
  show "nulls_in (JDict (del_none d)) = 0" by (rule nulls_in_del_none)
  show "list_free (JDict (del_none d))" if "list_free (JDict d)"
    using that by (rule list_free_del_none)
  show "nulls_anywhere (JDict (del_none d)) = 0" if "list_free (JDict d)"
    using list_free_nulls[OF list_free_del_none[OF that]] nulls_in_del_none[of d] by simp
  show "map_of (del_none d) k = Some (pruned v)"
    if "distinct (map fst d)" "map_of d k = Some v \<and> v \<noteq> JNull" for k v
    using that map_of_del_none by blast
  show "map_of (del_none d) k \<noteq> Some JNull" for k by (rule map_of_del_none_null)
  show "del_none d = d" if "\<forall>kv \<in> set d. snd kv \<noteq> JNull \<and> (\<forall>d'. snd kv \<noteq> JDict d')"
    using that by (rule del_none_id)
qed

theorem del_none_prunes_witness:
  "dict_depth (JDict [(''model'', JNull), (''defaults'', JDict [(''textures'', JDict [(''all'', JNull), (''side'', JStr ''s'')]), (''x'', JNull)]), (''y'', JInt 90)]) \<le> 3
   \<and> list_free (JDict [(''model'', JNull), (''defaults'', JDict [(''textures'', JDict [(''all'', JNull), (''side'', JStr ''s'')]), (''x'', JNull)]), (''y'', JInt 90)])
   \<and> del_none_limit 3 [(''model'', JNull), (''defaults'', JDict [(''textures'', JDict [(''all'', JNull), (''side'', JStr ''s'')]), (''x'', JNull)]), (''y'', JInt 90)]
       = Inr [(''defaults'', JDict [(''textures'', JDict [(''side'', JStr ''s'')])]), (''y'', JInt 90)]
   \<and> nulls_anywhere (JDict (del_none [(''model'', JNull), (''defaults'', JDict [(''textures'', JDict [(''all'', JNull), (''side'', JStr ''s'')]), (''x'', JNull)]), (''y'', JInt 90)])) = 0
   \<and> map_of (del_none [(''model'', JNull), (''defaults'', JDict [(''textures'', JDict [(''all'', JNull), (''side'', JStr ''s'')]), (''x'', JNull)]), (''y'', JInt 90)]) ''y'' = Some (JInt 90)
   \<and> del_none_limit 1 [(''y'', JInt 90), (''model'', JStr ''stairs'')] = Inr [(''y'', JInt 90), (''model'', JStr ''stairs'')]"
  using del_none_prunes[of 3 "[(''model'', JNull), (''defaults'', JDict [(''textures'', JDict [(''all'', JNull), (''side'', JStr ''s'')]), (''x'', JNull)]), (''y'', JInt 90)]"]
    del_none_prunes[of 1 "[(''y'', JInt 90), (''model'', JStr ''stairs'')]"]
  by simp

theorem del_none_depth_counterexample:
  "list_free (JDict (nested 1000)) \<and> dict_depth (JDict (nested 1000)) = 1001
   \<and> del_none_limit 1000 (nested 1000) = Inl RecursionError"
proof (intro conjI)
  show "list_free (JDict (nested 1000))" by (rule nested_list_free)
  have "dict_depth (JDict (nested 1000)) = Suc 1000" by (rule nested_depth)
  then show "dict_depth (JDict (nested 1000)) = 1001" by simp
  show "del_none_limit 1000 (nested 1000) = Inl RecursionError" by (rule nested_raises)
qed

subsection \<open>The variant table of a block descriptor\<close>

text \<open>
  Claim C1, as amended. The table of the caller does not take the place of the default: the
  default table \<open>{normal: [{}]}\<close> is updated with the caller's table and the result is
  pruned. With a caller's table that has no \<open>normal\<close> key the default entry stays, in front
  of the caller's entries; with one that has the key, the caller's value takes the place of
  the default's, and is pruned away when it is null.
\<close>

theorem variants_merge_default:
  assumes "vs \<noteq> []" and "distinct (map fst vs)"
  shows "map_of (blockstate_descriptor m t (Some vs)) ''variants'' =
           Some (JDict (del_none
             (case map_of vs ''normal'' of
                None \<Rightarrow> (''normal'', JList [JDict []]) # vs
              | Some v \<Rightarrow> (''normal'', v) # filter (\<lambda>kv. fst kv \<noteq> ''normal'') vs)))"
  using blockstate_variants_Some[OF assms] by (simp add: descriptor_variants)

theorem variants_merge_default_witness:
  "[(''half'', JDict [(''bottom'', JDict []), (''top'', JDict [(''model'', JStr ''upper_slab'')])])] \<noteq> []
   \<and> distinct (map fst [(''half'', JDict [(''bottom'', JDict []), (''top'', JDict [(''model'', JStr ''upper_slab'')])])])
   \<and> map_of (blockstate_descriptor (Some ''half_slab'') [] 
         (Some [(''half'', JDict [(''bottom'', JDict []), (''top'', JDict [(''model'', JStr ''upper_slab'')])])])) ''variants''
       = Some (JDict [(''normal'', JList [JDict []]),
                      (''half'', JDict [(''bottom'', JDict []), (''top'', JDict [(''model'', JStr ''upper_slab'')])])])"
  using variants_merge_default[of "[(''half'', JDict [(''bottom'', JDict []), (''top'', JDict [(''model'', JStr ''upper_slab'')])])]"
      "Some ''half_slab''" "[]"]
  by simp

theorem variants_not_replaced_counterexample:
  "map_of (blockstate_descriptor (Some ''half_slab'') []
         (Some [(''half'', JDict [(''bottom'', JDict []), (''top'', JDict [(''model'', JStr ''upper_slab'')])])])) ''variants''
     \<noteq> Some (JDict (del_none [(''half'', JDict [(''bottom'', JDict []), (''top'', JDict [(''model'', JStr ''upper_slab'')])])]))"
  by (simp add: blockstate_descriptor_def blockstate_variants_def dict_update_def json_of_textures_def blockstate_textures_def)

text \<open>
  Claim C2, as amended. With no variant table, and with an empty one, the variants object
  has exactly one entry, keyed \<open>normal\<close>; its value is the one-element list that holds an
  empty override object, not the empty object itself. The file that \<open>cube_all\<close> writes for
  a rock block carries that object.
\<close>

theorem default_normal_variant:
  "map_of (blockstate_descriptor m t None) ''variants'' = Some (JDict [(''normal'', JList [JDict []])])
   \<and> map_of (blockstate_descriptor m t (Some [])) ''variants'' = Some (JDict [(''normal'', JList [JDict []])])
   \<and> (cube_all parts texture None m w = Inr w' \<longrightarrow>
        (\<exists>d. map_of (nodes w') (path_key w (os_path_join ''blockstates'' parts @ ''.json''))
                = Some (File (Json d))
             \<and> map_of d ''variants'' = Some (JDict [(''normal'', JList [JDict []])])))"
proof (intro conjI impI)
  show 1: "map_of (blockstate_descriptor m t None) ''variants'' = Some (JDict [(''normal'', JList [JDict []])])" for m t
    by (simp add: descriptor_variants blockstate_variants_def)
  show "map_of (blockstate_descriptor m t (Some [])) ''variants'' = Some (JDict [(''normal'', JList [JDict []])])"
    by (simp add: descriptor_variants blockstate_variants_def)
  assume "cube_all parts texture None m w = Inr w'"
  then have "blockstate parts m [(Slot ''all'', texture)] None w = Inr w'"
    by (simp add: cube_all_def)
  from blockstate_writes[OF this] 1
  show "\<exists>d. map_of (nodes w') (path_key w (os_path_join ''blockstates'' parts @ ''.json''))
                = Some (File (Json d))
             \<and> map_of d ''variants'' = Some (JDict [(''normal'', JList [JDict []])])"
    by blast
qed

theorem default_normal_variant_witness:
  "\<exists>w' d. cube_all [''raw'', ''granite''] ''tfc:blocks/stonetypes/raw/granite'' None (Some ''cube_all'')
             \<lparr>nodes = [], cwd = [], events = []\<rparr> = Inr w'
     \<and> map_of (nodes w') ''blockstates/raw/granite.json'' = Some (File (Json d))
     \<and> json_at [''defaults'', ''textures'', ''all''] (JDict d) = Some (JStr ''tfc:blocks/stonetypes/raw/granite'')
     \<and> map_of d ''variants'' = Some (JDict [(''normal'', JList [JDict []])])"
proof -
  let ?w = "\<lparr>nodes = [], cwd = [], events = []\<rparr>"
  obtain w' where run: "cube_all [''raw'', ''granite''] ''tfc:blocks/stonetypes/raw/granite'' None (Some ''cube_all'') ?w = Inr w'"
    and fl: "map_of (nodes w') ''blockstates/raw/granite.json'' 
        = Some (File (Json (blockstate_descriptor (Some ''cube_all'') [(Slot ''all'', ''tfc:blocks/stonetypes/raw/granite'')] None)))"
    by (simp add: cube_all_def fs_eval)
  from default_normal_variant[of "Some ''cube_all''" "[(Slot ''all'', ''tfc:blocks/stonetypes/raw/granite'')]" "[''raw'', ''granite'']"
      "''tfc:blocks/stonetypes/raw/granite''" ?w w'] run
  have v: "map_of (blockstate_descriptor (Some ''cube_all'') [(Slot ''all'', ''tfc:blocks/stonetypes/raw/granite'')] None) ''variants''
      = Some (JDict [(''normal'', JList [JDict []])])" by blast
  have t: "json_at [''defaults'', ''textures'', ''all'']
       (JDict (blockstate_descriptor (Some ''cube_all'') [(Slot ''all'', ''tfc:blocks/stonetypes/raw/granite'')] None))
        = Some (JStr ''tfc:blocks/stonetypes/raw/granite'')"
    by (simp add: blockstate_descriptor_def blockstate_textures_def json_of_textures_def)
  from run fl v t show ?thesis by blast
qed

theorem default_normal_not_object_counterexample:
  "map_of (blockstate_descriptor (Some ''cube_all'') [(Slot ''all'', ''tfc:blocks/stonetypes/raw/granite'')] None) ''variants''
     \<noteq> Some (JDict [(''normal'', JDict [])])"
  by (simp add: blockstate_descriptor_def blockstate_variants_def json_of_textures_def blockstate_textures_def)

text \<open>
  Claim C4. When the caller's table maps \<open>normal\<close> to null, the variants object of the
  descriptor, and of the file written, has no \<open>normal\<close> key: it is the rest of the caller's
  table, pruned.
\<close>

theorem normal_null_disables:
  assumes "distinct (map fst vs)" and "map_of vs ''normal'' = Some JNull"
  shows "map_of (blockstate_descriptor m t (Some vs)) ''variants'' =
           Some (JDict (del_none (filter (\<lambda>kv. fst kv \<noteq> ''normal'') vs)))
         \<and> ''normal'' \<notin> fst ` set (del_none (filter (\<lambda>kv. fst kv \<noteq> ''normal'') vs))
         \<and> (blockstate parts m t (Some vs) w = Inr w' \<longrightarrow>
             (\<exists>d vo. map_of (nodes w') (path_key w (os_path_join ''blockstates'' parts @ ''.json''))
                        = Some (File (Json d))
                \<and> map_of d ''variants'' = Some (JDict vo) \<and> ''normal'' \<notin> fst ` set vo))"
proof -
  from assms(2) have ne: "vs \<noteq> []" by auto
  have 1: "map_of (blockstate_descriptor m t (Some vs)) ''variants'' =
           Some (JDict (del_none (filter (\<lambda>kv. fst kv \<noteq> ''normal'') vs)))"
    using blockstate_variants_Some[OF ne assms(1)] assms(2) by (simp add: descriptor_variants)
  have 2: "''normal'' \<notin> fst ` set (del_none (filter (\<lambda>kv. fst kv \<noteq> ''normal'') vs))"
    using del_none_keys[of "filter (\<lambda>kv. fst kv \<noteq> ''normal'') vs"] by auto
  have 3: "\<exists>d vo. map_of (nodes w') (path_key w (os_path_join ''blockstates'' parts @ ''.json''))
                        = Some (File (Json d))
                \<and> map_of d ''variants'' = Some (JDict vo) \<and> ''normal'' \<notin> fst ` set vo"
    if "blockstate parts m t (Some vs) w = Inr w'"
    using blockstate_writes[OF that] 1 2 by blast
  from 1 2 3 show ?thesis by blast
qed

theorem normal_null_disables_witness:
  "distinct (map fst [(''normal'', JNull), (''inventory'', JDict [(''model'', JStr ''wall_inventory'')]),
                      (''up'', JDict [(''true'', JDict [(''submodel'', JStr ''wall_post''), (''y'', JInt 270)]), (''false'', JDict [])])])
   \<and> map_of [(''normal'', JNull), (''inventory'', JDict [(''model'', JStr ''wall_inventory'')]),
                      (''up'', JDict [(''true'', JDict [(''submodel'', JStr ''wall_post''), (''y'', JInt 270)]), (''false'', JDict [])])] ''normal'' = Some JNull
   \<and> (\<exists>w' d. blockstate [''wall'', ''cobble'', ''granite''] (Some ''tfc:empty'')
           [(Group [''wall'', ''particle''], ''tfc:blocks/stonetypes/cobble/granite'')]
           (Some [(''normal'', JNull), (''inventory'', JDict [(''model'', JStr ''wall_inventory'')]),
                      (''up'', JDict [(''true'', JDict [(''submodel'', JStr ''wall_post''), (''y'', JInt 270)]), (''false'', JDict [])])])
           \<lparr>nodes = [], cwd = [], events = []\<rparr> = Inr w'
       \<and> map_of (nodes w') ''blockstates/wall/cobble/granite.json'' = Some (File (Json d))
       \<and> map_of d ''variants'' = Some (JDict [(''inventory'', JDict [(''model'', JStr ''wall_inventory'')]),
                      (''up'', JDict [(''true'', JDict [(''submodel'', JStr ''wall_post''), (''y'', JInt 270)]), (''false'', JDict [])])]))"
proof -
  let ?vs = "[(''normal'', JNull), (''inventory'', JDict [(''model'', JStr ''wall_inventory'')]),
                      (''up'', JDict [(''true'', JDict [(''submodel'', JStr ''wall_post''), (''y'', JInt 270)]), (''false'', JDict [])])]"
  let ?t = "[(Group [''wall'', ''particle''], ''tfc:blocks/stonetypes/cobble/granite'')]"
  let ?w = "\<lparr>nodes = [], cwd = [], events = []\<rparr>"
  have d: "distinct (map fst ?vs)" and n: "map_of ?vs ''normal'' = Some JNull" by simp_all
  obtain w' where run: "blockstate [''wall'', ''cobble'', ''granite''] (Some ''tfc:empty'') ?t (Some ?vs) ?w = Inr w'"
    and fl: "map_of (nodes w') ''blockstates/wall/cobble/granite.json''
        = Some (File (Json (blockstate_descriptor (Some ''tfc:empty'') ?t (Some ?vs))))"
    by (simp add: fs_eval)
  from normal_null_disables[OF d n, of "Some ''tfc:empty''" ?t]
  have "map_of (blockstate_descriptor (Some ''tfc:empty'') ?t (Some ?vs)) ''variants'' =
      Some (JDict [(''inventory'', JDict [(''model'', JStr ''wall_inventory'')]),
                      (''up'', JDict [(''true'', JDict [(''submodel'', JStr ''wall_post''), (''y'', JInt 270)]), (''false'', JDict [])])])"
    by simp
  with d n run fl show ?thesis by blast
qed

subsection \<open>The texture table of a block descriptor\<close>

lemma keys_dict_set:
  "map fst (dict_set k v d) = (if k \<in> set (map fst d) then map fst d else map fst d @ [k])"
  by (induction d) force+

lemma remdups_later: "k \<in> set ys \<Longrightarrow> remdups (xs @ k # ys) = remdups (xs @ ys)"
  by (induction xs) auto

lemma keys_dict_update:
  "distinct (map fst d) \<Longrightarrow> map fst (dict_update d e) = rev (remdups (rev (map fst d @ map fst e)))"
proof (induction e arbitrary: d)
  case Nil
  then show ?case by (simp add: dict_update_Nil distinct_remdups_id)
next
  case (Cons kv e)
  obtain k v where kv: "kv = (k, v)" by (cases kv)
  from Cons.prems have d: "distinct (map fst (dict_set k v d))" by (simp add: keys_dict_set)
  show ?case
  proof (cases "k \<in> set (map fst d)")
    case True
    then have "remdups (rev (map fst e) @ k # rev (map fst d)) = remdups (rev (map fst e) @ rev (map fst d))"
      by (intro remdups_later) simp
    with Cons.IH[OF d] True show ?thesis by (simp add: kv dict_update_Cons keys_dict_set)
  next
    case False
    with Cons.IH[OF d] show ?thesis by (simp add: kv dict_update_Cons keys_dict_set)
  qed
qed

lemma blockstate_textures_keys:
  "map fst (blockstate_textures textures) = rev (remdups (rev (map fst (expand_textures textures))))"
  using keys_dict_update[of "[]" "expand_textures textures"] by (simp add: blockstate_textures_expand)

lemma blockstate_textures_distinct: "distinct (map fst (blockstate_textures textures))"
  by (simp add: blockstate_textures_keys)


text \<open>
  Claim C5, as amended. The texture table of the descriptor is the table of the caller with
  every group written out, one entry for each slot name, set in the order of the table: a
  slot that several keys name gets the value of the last key that names it, and it has one
  entry only, at the place where it was named first. When no slot is named twice, the
  result is exactly the written-out table: a group of N names with value V gives N entries
  mapped to V, and a plain key is carried over.
\<close>

theorem textures_unpacked:
  "json_at [''defaults'', ''textures''] (JDict (blockstate_descriptor m textures v))
      = Some (JDict (map (\<lambda>(k, v). (k, JStr v)) (blockstate_textures textures)))
   \<and> map_of (blockstate_textures textures) = map_of (rev (expand_textures textures))
   \<and> distinct (map fst (blockstate_textures textures))
   \<and> map fst (blockstate_textures textures) = rev (remdups (rev (map fst (expand_textures textures))))
   \<and> (distinct (map fst (expand_textures textures)) \<longrightarrow>
        blockstate_textures textures = expand_textures textures)"
proof (intro conjI impI)
  show "distinct (map fst (blockstate_textures textures))"
    by (rule blockstate_textures_distinct)
  show "map fst (blockstate_textures textures) = rev (remdups (rev (map fst (expand_textures textures))))"
    by (rule blockstate_textures_keys)
  show "json_at [''defaults'', ''textures''] (JDict (blockstate_descriptor m textures v))
      = Some (JDict (map (\<lambda>(k, v). (k, JStr v)) (blockstate_textures textures)))"
    by (rule descriptor_textures)
  show "map_of (blockstate_textures textures) = map_of (rev (expand_textures textures))"
    by (simp add: blockstate_textures_expand map_of_dict_update)
  assume "distinct (map fst (expand_textures textures))"
  then show "blockstate_textures textures = expand_textures textures"
    using dict_update_distinct[of "[]" "expand_textures textures"]
    by (simp add: blockstate_textures_expand)
qed

theorem textures_unpacked_witness:
  "distinct (map fst (expand_textures [(Group [''all'', ''particle''], ''tfc:blocks/stonetypes/raw/granite''),
                                       (Slot ''overlay'', ''tfc:blocks/ores/galena'')]))
   \<and> json_at [''defaults'', ''textures'']
        (JDict (blockstate_descriptor (Some ''tfc:ore'')
           [(Group [''all'', ''particle''], ''tfc:blocks/stonetypes/raw/granite''),
            (Slot ''overlay'', ''tfc:blocks/ores/galena'')] None))
      = Some (JDict [(''all'', JStr ''tfc:blocks/stonetypes/raw/granite''),
                     (''particle'', JStr ''tfc:blocks/stonetypes/raw/granite''),
                     (''overlay'', JStr ''tfc:blocks/ores/galena'')])"
  using textures_unpacked[of "Some ''tfc:ore''" "[(Group [''all'', ''particle''], ''tfc:blocks/stonetypes/raw/granite''),
            (Slot ''overlay'', ''tfc:blocks/ores/galena'')]" None]
  by (simp add: expand_textures_def)

theorem group_slot_overridden_counterexample:
  "json_at [''defaults'', ''textures'', ''particle'']
     (JDict (blockstate_descriptor None [(Group [''all'', ''particle''], ''a''), (Slot ''particle'', ''b'')] None))
     \<noteq> Some (JStr ''a'')"
  by (simp add: blockstate_descriptor_def blockstate_textures_def json_of_textures_def)

subsection \<open>Item descriptors\<close>

text \<open>
  Claim C6. With no layer the model descriptor of an item has no \<open>textures\<close> field. With
  N layers it has a texture table of the N entries \<open>layer0\<close> to \<open>layer(N-1)\<close>, in that
  order, the i-th mapped to the i-th layer. The file is written below \<open>models/item\<close>.
\<close>

theorem item_layers:
  "map_of (model_descriptor parent (item_textures [])) ''textures'' = None
   \<and> (layers \<noteq> [] \<longrightarrow>
        map_of (model_descriptor parent (item_textures layers)) ''textures'' =
          Some (JDict (map (\<lambda>(i, v). (''layer'' @ string_of_nat i, JStr v)) (enumerate 0 layers)))
        \<and> (\<forall>i < length layers.
              json_at [''textures'', ''layer'' @ string_of_nat i]
                (JDict (model_descriptor parent (item_textures layers))) = Some (JStr (layers ! i))))
   \<and> (item parts layers parent w = Inr w' \<longrightarrow>
        map_of (nodes w') (path_key w (os_path_join ''models/item'' parts @ ''.json''))
          = Some (File (Json (model_descriptor parent (item_textures layers)))))"
proof (intro conjI impI allI)
  show "map_of (model_descriptor parent (item_textures [])) ''textures'' = None"
    by (simp add: item_textures_def model_descriptor_None)
next
  assume ne: "layers \<noteq> []"
  let ?ts = "map (\<lambda>(i, v). (''layer'' @ string_of_nat i, v)) (enumerate 0 layers)"
  have m: "map (\<lambda>(k, v). (k, JStr v)) ?ts = map (\<lambda>(i, v). (''layer'' @ string_of_nat i, JStr v)) (enumerate 0 layers)"
    by (simp add: case_prod_unfold)
  show tx: "map_of (model_descriptor parent (item_textures layers)) ''textures'' =
          Some (JDict (map (\<lambda>(i, v). (''layer'' @ string_of_nat i, JStr v)) (enumerate 0 layers)))"
    using m by (simp add: item_textures_layers[OF ne] model_descriptor_Some)
  fix i assume i: "i < length layers"
  have "(i, layers ! i) \<in> set (enumerate 0 layers)"
    using i by (simp add: in_set_enumerate_eq)
  then have "(''layer'' @ string_of_nat i, layers ! i) \<in> set ?ts" by force
  with enumerate_layer_keys_distinct[of 0 layers]
  have A: "map_of ?ts (''layer'' @ string_of_nat i) = Some (layers ! i)"
    by (rule map_of_is_SomeI)
  have "map_of (map (\<lambda>(k, v). (k, JStr v)) ?ts) (''layer'' @ string_of_nat i)
          = map_option JStr (map_of ?ts (''layer'' @ string_of_nat i))"
    by (rule map_of_map_JStr)
  also have "\<dots> = Some (JStr (layers ! i))"
    by (simp only: A option.map)
  finally have "map_of (map (\<lambda>(i, v). (''layer'' @ string_of_nat i, JStr v)) (enumerate 0 layers))
      (''layer'' @ string_of_nat i) = Some (JStr (layers ! i))"
    by (simp only: m)
  with tx show "json_at [''textures'', ''layer'' @ string_of_nat i]
                (JDict (model_descriptor parent (item_textures layers))) = Some (JStr (layers ! i))"
    by simp
next
  assume "item parts layers parent w = Inr w'"
  then have "model (''item'' # parts) parent (item_textures layers) w = Inr w'"
    by (simp add: item_def)
  from model_writes[OF this]
  show "map_of (nodes w') (path_key w (os_path_join ''models/item'' parts @ ''.json''))
          = Some (File (Json (model_descriptor parent (item_textures layers))))"
    by simp
qed

theorem item_layers_witness:
  "\<exists>w'. item [''ceramics'', ''unfired'', ''vessel_glazed'']
            [''tfc:items/ceramics/unfired/vessel'', ''tfc:items/ceramics/fired/vessel_overlay'']
            ''item/generated'' \<lparr>nodes = [], cwd = [], events = []\<rparr> = Inr w'
     \<and> map_of (nodes w') ''models/item/ceramics/unfired/vessel_glazed.json'' =
         Some (File (Json [(''__comment'', JStr ''Generated by generateResources.py function: model''),
                           (''parent'', JStr ''item/generated''),
                           (''textures'', JDict [(''layer0'', JStr ''tfc:items/ceramics/unfired/vessel''),
                                                 (''layer1'', JStr ''tfc:items/ceramics/fired/vessel_overlay'')])]))"
proof -
  let ?w = "\<lparr>nodes = [], cwd = [], events = []\<rparr>"
  let ?ls = "[''tfc:items/ceramics/unfired/vessel'', ''tfc:items/ceramics/fired/vessel_overlay'']"
  obtain w' where run: "item [''ceramics'', ''unfired'', ''vessel_glazed''] ?ls ''item/generated'' ?w = Inr w'"
    by (simp add: item_def fs_eval)
  from item_layers[of "''item/generated''" ?ls "[''ceramics'', ''unfired'', ''vessel_glazed'']" ?w w'] run
  have fl: "map_of (nodes w') ''models/item/ceramics/unfired/vessel_glazed.json''
         = Some (File (Json (model_descriptor ''item/generated'' (item_textures ?ls))))"
    and tx: "map_of (model_descriptor ''item/generated'' (item_textures ?ls)) ''textures'' =
          Some (JDict (map (\<lambda>(i, v). (''layer'' @ string_of_nat i, JStr v)) (enumerate 0 ?ls)))"
    by (simp_all add: path_key_def rstrip_sep_def)
  have "model_descriptor ''item/generated'' (item_textures ?ls) =
      [(''__comment'', JStr ''Generated by generateResources.py function: model''),
                           (''parent'', JStr ''item/generated''),
                           (''textures'', JDict [(''layer0'', JStr ''tfc:items/ceramics/unfired/vessel''),
                                                 (''layer1'', JStr ''tfc:items/ceramics/fired/vessel_overlay'')])]"
    by (simp add: item_textures_layers model_descriptor_Some enumerate_eq_zip upt_rec string_of_nat.simps digit_char_def)
  with run fl show ?thesis by auto
qed

section \<open>Pruning on the store: basic facts\<close>

lemma prunes_refl: "prunes h h"
  by (simp add: prunes_def)

lemma prunes_trans: "prunes H h \<Longrightarrow> prunes h h' \<Longrightarrow> prunes H h'"
  unfolding prunes_def by (intro allI conjI ballI) blast+

lemma prunes_del:
  assumes "prunes H h" and "(key, PNone) \<in> set (H d)"
  shows "prunes H (h(d := filter (\<lambda>kv. fst kv \<noteq> key) (h d)))"
  using assms unfolding prunes_def by (intro allI conjI ballI) (auto split: if_splits)

lemma closed_under_shrink:
  "closed_under R h \<Longrightarrow> \<forall>b. set (h' b) \<subseteq> set (h b) \<Longrightarrow> closed_under R h'"
  unfolding closed_under_def by blast


lemma dict_del_Some: "dict_del key kvs = Some kvs' \<Longrightarrow> kvs' = filter (\<lambda>kv. fst kv \<noteq> key) kvs \<and> key \<in> fst ` set kvs"
  by (simp add: dict_del_def split: if_splits)

lemma heap_shrinks:
  "del_none_heap n d h = Inr (r, h') \<Longrightarrow> r = d \<and> (\<forall>b. set (h' b) \<subseteq> set (h b))"
  "del_none_loop n d items h = Inr h'' \<Longrightarrow> (\<forall>b. set (h'' b) \<subseteq> set (h b))"
proof (induction n d h and n d items h arbitrary: r h' and h'' rule: del_none_heap_del_none_loop.induct)
  case (1 d h)
  then show ?case by simp
next
  case (2 n d h)
  then show ?case by (auto split: sum.splits)
next
  case (3 n d h)
  then show ?case by simp
next
  case (4 n d key items h)
  from "4.prems" obtain kvs where k: "dict_del key (h d) = Some kvs"
    and l: "del_none_loop n d items (h(d := kvs)) = Inr h''"
    by (auto split: option.splits)
  from dict_del_Some[OF k] have "set kvs \<subseteq> set (h d)" by auto
  with "4.IH"[OF k l] show ?case by (auto split: if_splits)
next
  case (5 n d key r items h)
  from "5.prems" obtain r' h1 where k: "del_none_heap n r h = Inr (r', h1)"
    and l: "del_none_loop n d items h1 = Inr h''"
    by (auto split: sum.splits)
  from "5.IH"(1)[OF k] "5.IH"(2)[OF k refl l] show ?case by blast
qed simp_all


lemma heap_frame:
  "del_none_heap n d h = Inr (r, h') \<Longrightarrow> closed_under R h \<Longrightarrow> d \<in> R \<Longrightarrow>
     (\<forall>b. b \<notin> R \<longrightarrow> h' b = h b)"
  "del_none_loop n d items h = Inr h'' \<Longrightarrow> closed_under R h \<Longrightarrow> d \<in> R \<Longrightarrow>
     (\<forall>k c. (k, PRef c) \<in> set items \<longrightarrow> c \<in> R) \<Longrightarrow>
     (\<forall>b. b \<notin> R \<longrightarrow> h'' b = h b)"
proof (induction n d h and n d items h arbitrary: r h' and h'' rule: del_none_heap_del_none_loop.induct)
  case (1 d h)
  then show ?case by simp
next
  case (2 n d h)
  from "2.prems"(1) obtain h1 where l: "del_none_loop n d (h d) h = Inr h1" and e: "h' = h1"
    by (auto split: sum.splits)
  from "2.prems"(2,3) have "\<forall>k c. (k, PRef c) \<in> set (h d) \<longrightarrow> c \<in> R"
    by (auto simp: closed_under_def)
  from "2.IH"[OF l "2.prems"(2,3) this] e show ?case by simp
next
  case (3 n d h)
  then show ?case by simp
next
  case (4 n d key items h)
  from "4.prems"(1) obtain kvs where k: "dict_del key (h d) = Some kvs"
    and l: "del_none_loop n d items (h(d := kvs)) = Inr h''"
    by (auto split: option.splits)
  from dict_del_Some[OF k] have sub: "set kvs \<subseteq> set (h d)" by auto
  have c: "closed_under R (h(d := kvs))"
    by (rule closed_under_shrink[OF "4.prems"(2)]) (use sub in auto)
  from "4.prems"(4) have i: "\<forall>k c. (k, PRef c) \<in> set items \<longrightarrow> c \<in> R" by auto
  from "4.IH"[OF k l c "4.prems"(3) i] "4.prems"(3) show ?case by auto
next
  case (5 n d key r items h)
  from "5.prems"(1) obtain r' h1 where k: "del_none_heap n r h = Inr (r', h1)"
    and l: "del_none_loop n d items h1 = Inr h''"
    by (auto split: sum.splits)
  from "5.prems"(4) have rR: "r \<in> R" and i: "\<forall>k c. (k, PRef c) \<in> set items \<longrightarrow> c \<in> R" by auto
  have c: "closed_under R h1"
    by (rule closed_under_shrink[OF "5.prems"(2)]) (use heap_shrinks(1)[OF k] in blast)
  from "5.IH"(1)[OF k "5.prems"(2) rR] "5.IH"(2)[OF k refl l c "5.prems"(3) i] show ?case by simp
qed simp_all

lemma heap_prunes:
  "del_none_heap n d h = Inr (r, h') \<Longrightarrow> prunes h h'"
  "del_none_loop n d items h = Inr h'' \<Longrightarrow> prunes H h \<Longrightarrow>
     (\<forall>k. (k, PNone) \<in> set items \<longrightarrow> (k, PNone) \<in> set (H d)) \<Longrightarrow> prunes H h''"
proof (induction n d h and n d items h arbitrary: r h' and h'' H rule: del_none_heap_del_none_loop.induct)
  case (1 d h)
  then show ?case by simp
next
  case (2 n d h)
  from "2.prems"(1) obtain h1 where l: "del_none_loop n d (h d) h = Inr h1" and e: "h' = h1"
    by (auto split: sum.splits)
  from "2.IH"[OF l prunes_refl] e show ?case by simp
next
  case (3 n d h)
  then show ?case by simp
next
  case (4 n d key items h)
  from "4.prems"(1) obtain kvs where k: "dict_del key (h d) = Some kvs"
    and l: "del_none_loop n d items (h(d := kvs)) = Inr h''"
    by (auto split: option.splits)
  from "4.prems"(3) have kH: "(key, PNone) \<in> set (H d)"
    and i: "\<forall>k. (k, PNone) \<in> set items \<longrightarrow> (k, PNone) \<in> set (H d)" by auto
  from prunes_del[OF "4.prems"(2) kH] dict_del_Some[OF k] have "prunes H (h(d := kvs))" by simp
  from "4.IH"[OF k l this i] show ?case .
next
  case (5 n d key r items h)
  from "5.prems"(1) obtain r' h1 where k: "del_none_heap n r h = Inr (r', h1)"
    and l: "del_none_loop n d items h1 = Inr h''"
    by (auto split: sum.splits)
  from "5.prems"(3) have i: "\<forall>k. (k, PNone) \<in> set items \<longrightarrow> (k, PNone) \<in> set (H d)" by auto
  from prunes_trans[OF "5.prems"(2) "5.IH"(1)[OF k]] have "prunes H h1" .
  from "5.IH"(2)[OF k refl l this i] show ?case .
qed simp_all

lemma loop_deletes:
  assumes "del_none_loop n d items h = Inr h''"
  shows "\<forall>k. (k, PNone) \<in> set items \<longrightarrow> k \<notin> fst ` set (h'' d)"
  using assms
proof (induction items arbitrary: h)
  case Nil
  then show ?case by simp
next
  case (Cons kv items)
  obtain key v where kv: "kv = (key, v)" by (cases kv)
  show ?case
  proof (cases v)
    case PNone
    with Cons.prems kv obtain kvs where k: "dict_del key (h d) = Some kvs"
      and l: "del_none_loop n d items (h(d := kvs)) = Inr h''"
      by (auto split: option.splits)
    from dict_del_Some[OF k] have "key \<notin> fst ` set ((h(d := kvs)) d)" by auto
    with heap_shrinks(2)[OF l] have "key \<notin> fst ` set (h'' d)" by blast
    with Cons.IH[OF l] show ?thesis by (auto simp: kv PNone)
  next
    case (PRef r)
    with Cons.prems kv obtain r' h1 where k: "del_none_heap n r h = Inr (r', h1)"
      and l: "del_none_loop n d items h1 = Inr h''"
      by (auto split: sum.splits)
    from Cons.IH[OF l] show ?thesis by (auto simp: kv PRef)
  qed (use Cons in \<open>auto simp: kv\<close>)
qed

lemma dict_reach_closed: "closed_under (dict_reach h a) h"
  unfolding closed_under_def by (blast intro: dict_reach.step)

lemma del_none_keeps_lists: "(k, JList xs) \<in> set d \<Longrightarrow> (k, JList xs) \<in> set (del_none d)"
  by (force simp: del_none_filter_map)

subsection \<open>When pruning returns\<close>

lemma shallow_ref: "shallow (Suc n) h a \<Longrightarrow> (k, PRef r) \<in> set (h a) \<Longrightarrow> shallow n h r"
  by (force simp: list_all_iff)

lemma subseq_distinct_map: "subseq xs ys \<Longrightarrow> distinct (map f ys) \<Longrightarrow> distinct (map f xs)"
  by (auto simp: subseq_conv_nths nths_map[symmetric])

lemma subseq_set: "subseq xs ys \<Longrightarrow> set xs \<subseteq> set ys"
  by (auto simp: subseq_conv_nths dest: set_nths_subset[THEN subsetD])

lemma shallow_shrink:
  "shallow n h a \<Longrightarrow> \<forall>b. subseq (h' b) (h b) \<Longrightarrow> shallow n h' a"
proof (induction n arbitrary: a)
  case 0
  then show ?case by simp
next
  case (Suc n)
  from Suc.prems(2) have s: "subseq (h' a) (h a)" by simp
  from subseq_distinct_map[OF s, of fst] Suc.prems(1) have d: "distinct (map fst (h' a))"
    by simp
  have "shallow n h' r" if "(k, PRef r) \<in> set (h' a)" for k r
  proof -
    from that s have "(k, PRef r) \<in> set (h a)" using subseq_set by blast
    from Suc.IH[OF shallow_ref[OF Suc.prems(1) this] Suc.prems(2)] show ?thesis .
  qed
  with d show ?case by (auto simp: list_all_iff split: pyval.splits)
qed

lemma reach_shallow:
  "b \<in> dict_reach h a \<Longrightarrow> shallow n h a \<Longrightarrow> \<exists>m \<le> n. shallow m h b"
proof (induction rule: dict_reach.induct)
  case self
  then show ?case by blast
next
  case (step b k c)
  from step.IH[OF step.prems] obtain m where m: "m \<le> n" "shallow m h b" by blast
  then obtain m' where m': "m = Suc m'" by (cases m) auto
  from shallow_ref[OF m(2)[unfolded m'] step.hyps(2)] m(1) m' show ?case
    by (intro exI[of _ m']) simp
qed

lemma no_cycle:
  assumes "(k, PRef r) \<in> set (h d)" and "d \<in> dict_reach h r"
  shows "\<not> shallow n h d"
proof (induction n rule: less_induct)
  case (less n)
  show ?case
  proof
    assume s: "shallow n h d"
    then obtain n' where n': "n = Suc n'" by (cases n) auto
    from shallow_ref[OF s[unfolded n'] assms(1)] have "shallow n' h r" .
    from reach_shallow[OF assms(2) this] obtain m where "m \<le> n'" "shallow m h d" by blast
    with less.IH[of m] n' show False by simp
  qed
qed

lemma dict_reach_shrink:
  assumes "\<forall>b. set (h' b) \<subseteq> set (h b)" and "c \<in> dict_reach h' a"
  shows "c \<in> dict_reach h a"
  using assms(2)
proof (induction rule: dict_reach.induct)
  case self
  then show ?case by (rule dict_reach.self)
next
  case (step b k c)
  from step.hyps(2) assms(1) have "(k, PRef c) \<in> set (h b)" by blast
  with step.IH show ?case by (rule dict_reach.step)
qed

lemma heap_subseq:
  "del_none_heap n d h = Inr (r, h') \<Longrightarrow> (\<forall>b. subseq (h' b) (h b))"
  "del_none_loop n d items h = Inr h'' \<Longrightarrow> (\<forall>b. subseq (h'' b) (h b))"
proof (induction n d h and n d items h arbitrary: r h' and h'' rule: del_none_heap_del_none_loop.induct)
  case (1 d h)
  then show ?case by simp
next
  case (2 n d h)
  then show ?case by (auto split: sum.splits)
next
  case (3 n d h)
  then show ?case by simp
next
  case (4 n d key items h)
  from "4.prems" obtain kvs where k: "dict_del key (h d) = Some kvs"
    and l: "del_none_loop n d items (h(d := kvs)) = Inr h''"
    by (auto split: option.splits)
  from dict_del_Some[OF k] have s: "subseq kvs (h d)" by simp
  show ?case
  proof
    fix b
    from "4.IH"[OF k l] have "subseq (h'' b) ((h(d := kvs)) b)" by blast
    with s show "subseq (h'' b) (h b)"
      by (cases "b = d") (auto intro: subseq_order.trans)
  qed
next
  case (5 n d key r items h)
  from "5.prems" obtain r' h1 where k: "del_none_heap n r h = Inr (r', h1)"
    and l: "del_none_loop n d items h1 = Inr h''"
    by (auto split: sum.splits)
  from "5.IH"(1)[OF k] "5.IH"(2)[OF k refl l] show ?case
    by (blast intro: subseq_order.trans)
qed simp_all

lemma loop_returns:
  assumes heap: "\<And>a h. shallow n h a \<Longrightarrow> \<exists>h'. del_none_heap n a h = Inr (a, h')"
  shows "distinct (map fst items) \<Longrightarrow> \<forall>k. (k, PNone) \<in> set items \<longrightarrow> k \<in> fst ` set (h d)
     \<Longrightarrow> \<forall>k r. (k, PRef r) \<in> set items \<longrightarrow> shallow n h r \<and> d \<notin> dict_reach h r
     \<Longrightarrow> \<exists>h'. del_none_loop n d items h = Inr h'"
proof (induction items arbitrary: h)
  case Nil
  then show ?case by simp
next
  case (Cons kv items)
  obtain key v where kv: "kv = (key, v)" by (cases kv)
  from Cons.prems(1) have di: "distinct (map fst items)" and nk: "key \<notin> fst ` set items" by (auto simp: kv)
  show ?case
  proof (cases v)
    case PNone
    let ?kvs = "filter (\<lambda>kv. fst kv \<noteq> key) (h d)"
    from Cons.prems(2) have "key \<in> fst ` set (h d)" by (simp add: kv PNone)
    then have dd: "dict_del key (h d) = Some ?kvs" by (simp add: dict_del_def)
    have sub: "\<forall>b. subseq ((h(d := ?kvs)) b) (h b)" by simp
    then have sub': "\<forall>b. set ((h(d := ?kvs)) b) \<subseteq> set (h b)" by auto
    have i: "\<forall>k. (k, PNone) \<in> set items \<longrightarrow> k \<in> fst ` set ((h(d := ?kvs)) d)"
    proof (intro allI impI)
      fix k assume a: "(k, PNone) \<in> set items"
      with nk have "k \<noteq> key" by force
      moreover from a Cons.prems(2) have "k \<in> fst ` set (h d)" by (simp add: kv)
      ultimately show "k \<in> fst ` set ((h(d := ?kvs)) d)" by force
    qed
    have r: "\<forall>k r. (k, PRef r) \<in> set items \<longrightarrow> shallow n (h(d := ?kvs)) r \<and> d \<notin> dict_reach (h(d := ?kvs)) r"
    proof (intro allI impI)
      fix k r assume "(k, PRef r) \<in> set items"
      with Cons.prems(3) have "shallow n h r" "d \<notin> dict_reach h r" by (auto simp: kv)
      with shallow_shrink[OF _ sub] dict_reach_shrink[OF sub']
      show "shallow n (h(d := ?kvs)) r \<and> d \<notin> dict_reach (h(d := ?kvs)) r" by blast
    qed
    from Cons.IH[of "h(d := ?kvs)", OF di i r] obtain h' where
      "del_none_loop n d items (h(d := ?kvs)) = Inr h'" by blast
    with dd show ?thesis by (simp add: kv PNone)
  next
    case (PRef r)
    from Cons.prems(3) have sr: "shallow n h r" and nr: "d \<notin> dict_reach h r" by (auto simp: kv PRef)
    from heap[OF sr] obtain h1 where h1: "del_none_heap n r h = Inr (r, h1)" by blast
    from heap_subseq(1)[OF h1] have sub: "\<forall>b. subseq (h1 b) (h b)" .
    then have sub': "\<forall>b. set (h1 b) \<subseteq> set (h b)" using subseq_set by blast
    from heap_frame(1)[OF h1 dict_reach_closed dict_reach.self] nr have fr: "h1 d = h d" by blast
    have i: "\<forall>k. (k, PNone) \<in> set items \<longrightarrow> k \<in> fst ` set (h1 d)"
      using Cons.prems(2) by (simp add: kv fr)
    have rr: "\<forall>k r. (k, PRef r) \<in> set items \<longrightarrow> shallow n h1 r \<and> d \<notin> dict_reach h1 r"
    proof (intro allI impI)
      fix k r' assume "(k, PRef r') \<in> set items"
      with Cons.prems(3) have "shallow n h r'" "d \<notin> dict_reach h r'" by (auto simp: kv)
      with shallow_shrink[OF _ sub] dict_reach_shrink[OF sub']
      show "shallow n h1 r' \<and> d \<notin> dict_reach h1 r'" by blast
    qed
    from Cons.IH[of h1, OF di i rr] h1 show ?thesis by (simp add: kv PRef)
  qed (use Cons.IH[OF di] Cons.prems in \<open>auto simp: kv\<close>)
qed

lemma heap_returns: "shallow n h d \<Longrightarrow> \<exists>h'. del_none_heap n d h = Inr (d, h')"
proof (induction n arbitrary: d h)
  case 0
  then show ?case by simp
next
  case (Suc n)
  from Suc.prems have di: "distinct (map fst (h d))" by simp
  have r: "\<forall>k r. (k, PRef r) \<in> set (h d) \<longrightarrow> shallow n h r \<and> d \<notin> dict_reach h r"
    using shallow_ref[OF Suc.prems] no_cycle[of _ _ h d "Suc n"] Suc.prems by blast
  have "\<exists>h'. del_none_loop n d (h d) h = Inr h'"
    by (rule loop_returns[OF Suc.IH di _ r]) force+
  then show ?case by auto
qed

subsection \<open>What pruning touches\<close>

text \<open>
  Claim C10. \<open>del_none\<close> returns the reference it was given, and changes objects in place.
  On a store whose dictionaries below the argument nest less deep than there are frames
  left, and have no key twice, the call returns. When it returns, the object itself has no
  null entry, no object has gained an entry, and an entry that is not null (a list, whatever
  it holds, among them) stays where keys are distinct. It goes only into values that are
  dictionaries: an object that cannot be reached through dictionary values, such as an
  override object that is an element of a list, is left as it is, nulls included. On trees,
  an entry whose value is a list is kept as it is.
\<close>

theorem del_none_in_place:
  "(shallow n h d \<longrightarrow> (\<exists>h'. del_none_heap n d h = Inr (d, h')))
   \<and> (del_none_heap n d h = Inr (r, h') \<longrightarrow>
        r = d
      \<and> (\<forall>b. b \<notin> dict_reach h d \<longrightarrow> h' b = h b)
      \<and> (\<forall>b. set (h' b) \<subseteq> set (h b))
      \<and> (\<forall>k. (k, PNone) \<notin> set (h' d))
      \<and> (\<forall>b k v. distinct (map fst (h b)) \<and> (k, v) \<in> set (h b) \<and> v \<noteq> PNone \<longrightarrow> (k, v) \<in> set (h' b)))
   \<and> (\<forall>t k xs. (k, JList xs) \<in> set t \<longrightarrow> (k, JList xs) \<in> set (del_none t))"
proof (intro conjI allI impI)
  show "\<exists>h'. del_none_heap n d h = Inr (d, h')" if "shallow n h d"
    using that by (rule heap_returns)
  show "(k, JList xs) \<in> set (del_none t)" if "(k, JList xs) \<in> set t" for t k xs
    using that by (rule del_none_keeps_lists)
next
  assume run: "del_none_heap n d h = Inr (r, h')"
  show "r = d" using heap_shrinks(1)[OF run] by simp
  show "h' b = h b" if "b \<notin> dict_reach h d" for b
    using heap_frame(1)[OF run dict_reach_closed dict_reach.self] that by blast
  show "set (h' b) \<subseteq> set (h b)" for b using heap_shrinks(1)[OF run] by simp
  show "(k, PNone) \<notin> set (h' d)" for k
  proof
    assume a: "(k, PNone) \<in> set (h' d)"
    from run obtain n' where n: "n = Suc n'" by (cases n) auto
    with run have l: "del_none_loop n' d (h d) h = Inr h'" by (auto split: sum.splits)
    from a heap_shrinks(2)[OF l] have "(k, PNone) \<in> set (h d)" by blast
    with loop_deletes[OF l] have "k \<notin> fst ` set (h' d)" by blast
    with a show False by force
  qed
  show "(k, v) \<in> set (h' b)"
    if "distinct (map fst (h b)) \<and> (k, v) \<in> set (h b) \<and> v \<noteq> PNone" for b k v
  proof (rule ccontr)
    assume "(k, v) \<notin> set (h' b)"
    with that heap_prunes(1)[OF run] have "(k, PNone) \<in> set (h b)"
      unfolding prunes_def by force
    with that have "v = PNone"
      by (meson eq_key_imp_eq_value)
    with that show False by simp
  qed
qed

lemma button_reach: "b \<in> dict_reach button_heap 0 \<Longrightarrow> b = 0 \<or> b = 2"
  by (induction rule: dict_reach.induct) (auto simp: button_heap_def split: if_splits)

theorem del_none_in_place_witness:
  "shallow 2 button_heap 0
   \<and> (\<exists>h'. del_none_heap 2 0 button_heap = Inr (0, h')
     \<and> h' 0 = [(''inventory'', PList [PRef 1]), (''facing'', PRef 2)]
     \<and> h' 1 = [(''model'', PNone)]
     \<and> h' 2 = [(''y'', PInt 90)])"
proof -
  have sh: "shallow 2 button_heap 0"
    by (simp add: button_heap_def numeral_2_eq_2)
  have run: "del_none_heap 2 0 button_heap = Inr (0, button_heap
      (0 := [(''inventory'', PList [PRef 1]), (''facing'', PRef 2)], 2 := [(''y'', PInt 90)]))"
    by (simp add: button_heap_def numeral_2_eq_2 dict_del_def fun_upd_twist)
  have "1 \<notin> dict_reach button_heap 0" using button_reach[of 1] by auto
  with del_none_in_place[of 2 button_heap 0 0 "button_heap
      (0 := [(''inventory'', PList [PRef 1]), (''facing'', PRef 2)], 2 := [(''y'', PInt 90)])"] run sh
  have "(button_heap
      (0 := [(''inventory'', PList [PRef 1]), (''facing'', PRef 2)], 2 := [(''y'', PInt 90)])) 1 = button_heap 1"
    by blast
  then show ?thesis using run sh by (simp add: button_heap_def)
qed

section \<open>Runs: basic facts\<close>

lemma blockstate_write_json:
  "blockstate parts m t v = write_json (os_path_join ''blockstates'' parts @ ''.json'') (blockstate_descriptor m t v)"
  by (simp add: fun_eq_iff blockstate_def write_json_def Let_def)

lemma model_write_json:
  "model parts parent ts = write_json (os_path_join ''models'' parts @ ''.json'') (model_descriptor parent ts)"
  by (simp add: fun_eq_iff model_def write_json_def Let_def)

lemma emits_blockstate: "emits (blockstate parts m t v)"
  unfolding emits_def marked_def using blockstate_write_json blockstate_marker by blast

lemma emits_model: "emits (model parts parent ts)"
  unfolding emits_def marked_def using model_write_json model_marker by blast

lemma emits_cube_all: "emits (cube_all parts tex v m)"
  by (simp add: cube_all_def emits_blockstate)

lemma emits_item: "emits (item parts layers parent)"
  by (simp add: item_def emits_model)

lemmas emits_intros = emits_blockstate emits_model emits_cube_all emits_item

lemma emits_fluid_blocks: "\<forall>s \<in> set fluid_blocks. emits s"
  by (auto simp: fluid_blocks_def intro: emits_intros)

lemma emits_rock_blocks: "\<forall>s \<in> set (rock_blocks r). emits s"
  by (auto simp: rock_blocks_def intro: emits_intros)

lemma emits_wood_blocks: "\<forall>s \<in> set (wood_blocks r). emits s"
  by (auto simp: wood_blocks_def intro: emits_intros)

lemma emits_steel_items: "\<forall>s \<in> set (steel_items kind steel). emits s"
  by (auto simp: steel_items_def intro: emits_intros)

lemma emits_items:
  "\<forall>s \<in> set ore_items. emits s" "\<forall>s \<in> set rock_items. emits s" "\<forall>s \<in> set door_items. emits s"
  "\<forall>s \<in> set gem_items. emits s" "\<forall>s \<in> set (metal_items steel). emits s"
  "\<forall>s \<in> set lumber_items. emits s" "\<forall>s \<in> set rock_tool_items. emits s"
  "\<forall>s \<in> set powder_items. emits s" "\<forall>s \<in> set goldpan_items. emits s"
  "\<forall>s \<in> set (mold_items steel). emits s" "\<forall>s \<in> set ceramics_items. emits s"
  "\<forall>s \<in> set flat_items. emits s"
  using emits_steel_items
  by (auto simp: ore_items_def rock_items_def door_items_def gem_items_def metal_items_def lumber_items_def
      rock_tool_items_def powder_items_def goldpan_items_def mold_items_def ceramics_items_def flat_items_def
      intro: emits_intros split: if_splits)

lemma emits_driver: "\<forall>s \<in> set (driver steel). emits s"
  using emits_fluid_blocks emits_rock_blocks emits_wood_blocks emits_items
  by (auto simp: driver_def)

lemma outcome_cases: obtains (Fail) e w' where "r = Inl (e, w')" | (Ok) w' where "r = Inr w'"
  by (cases r) auto

lemma os_mkdir_events:
  "\<exists>mk. events (outcome_world (os_mkdir p w)) = events w @ mk \<and> list_all is_mkdir mk"
  by (auto simp: os_mkdir_def Let_def)

lemma makedirs_each_events:
  "\<exists>mk. events (outcome_world (makedirs_each as w)) = events w @ mk \<and> list_all is_mkdir mk"
proof (induction as arbitrary: w)
  case Nil
  then show ?case by simp
next
  case (Cons a as)
  show ?case
  proof (cases "map_of (nodes w) (path_key w a)")
    case None
    show ?thesis
    proof (cases "os_mkdir a w" rule: outcome_cases)
      case (Fail e w')
      with os_mkdir_events[of a w] None show ?thesis by simp
    next
      case (Ok w')
      from os_mkdir_events[of a w] Ok obtain mk1 where 1: "events w' = events w @ mk1" "list_all is_mkdir mk1"
        by auto
      from Cons.IH[of w'] obtain mk2 where 2: "events (outcome_world (makedirs_each as w')) = events w' @ mk2"
        "list_all is_mkdir mk2" by auto
      from 1 2 have "events (outcome_world (makedirs_each as w')) = events w @ (mk1 @ mk2) \<and> list_all is_mkdir (mk1 @ mk2)"
        by simp
      with None Ok show ?thesis by (auto simp del: append_assoc)
    qed
  next
    case (Some n)
    with Cons.IH[of w] show ?thesis by (cases n) auto
  qed
qed

lemma write_json_events:
  "\<exists>mk wr. events (outcome_world (write_json p d w)) = events w @ mk @ wr \<and> list_all is_mkdir mk
      \<and> (wr = [] \<or> (\<exists>k. wr = [Write k (Json d)]))"
proof (cases "os_makedirs (os_path_dirname p) w" rule: outcome_cases)
  case (Fail e w')
  have "\<exists>mk. events (outcome_world (os_makedirs (os_path_dirname p) w)) = events w @ mk \<and> list_all is_mkdir mk"
    using makedirs_each_events by (auto simp: os_makedirs_def)
  with Fail obtain mk where "events w' = events w @ mk" "list_all is_mkdir mk" by auto
  then show ?thesis
    by (intro exI[of _ mk] exI[of _ "[]"]) (simp add: write_json_def Fail)
next
  case (Ok w')
  have "\<exists>mk. events (outcome_world (os_makedirs (os_path_dirname p) w)) = events w @ mk \<and> list_all is_mkdir mk"
    using makedirs_each_events by (auto simp: os_makedirs_def)
  with Ok obtain mk where mk: "events w' = events w @ mk" "list_all is_mkdir mk" by auto
  have "events (outcome_world (open_write p (Json d) w')) = events w' 
      \<or> (\<exists>k. events (outcome_world (open_write p (Json d) w')) = events w' @ [Write k (Json d)])"
    by (auto simp: open_write_def Let_def)
  then obtain wr where "events (outcome_world (open_write p (Json d) w')) = events w' @ wr"
    "wr = [] \<or> (\<exists>k. wr = [Write k (Json d)])" by auto
  with mk show ?thesis
    by (intro exI[of _ mk] exI[of _ wr]) (simp add: write_json_def Ok)
qed

lemma emits_events:
  assumes "emits s"
  shows "\<exists>evs. events (outcome_world (s w)) = events w @ evs \<and> list_all emitted evs"
proof -
  from assms obtain p d where s: "s = write_json p d" and m: "marked d" by (auto simp: emits_def)
  from write_json_events[of p d w] obtain mk wr where
    e: "events (outcome_world (write_json p d w)) = events w @ mk @ wr" "list_all is_mkdir mk"
      "wr = [] \<or> (\<exists>k. wr = [Write k (Json d)])" by blast
  from e(2) have "list_all emitted mk" by (auto simp: list_all_iff emitted_def)
  moreover from e(3) m have "list_all emitted wr" by (auto simp: emitted_def)
  ultimately have "list_all emitted (mk @ wr)" by simp
  with e(1) s show ?thesis by blast
qed

lemma run_all_events:
  assumes "\<forall>s \<in> set ss. emits s"
  shows "\<exists>evs. events (outcome_world (run_all ss w)) = events w @ evs \<and> list_all emitted evs"
  using assms
proof (induction ss arbitrary: w)
  case Nil
  then show ?case by simp
next
  case (Cons s ss)
  from Cons.prems have s: "emits s" and ss: "\<forall>s \<in> set ss. emits s" by auto
  from emits_events[OF s, of w] obtain e1 where 1: "events (outcome_world (s w)) = events w @ e1" "list_all emitted e1"
    by blast
  show ?case
  proof (cases "s w" rule: outcome_cases)
    case (Fail e w')
    with 1 show ?thesis by auto
  next
    case (Ok w')
    from Cons.IH[OF ss, of w'] obtain e2 where 2: "events (outcome_world (run_all ss w')) = events w' @ e2"
      "list_all emitted e2" by blast
    from 1 2 Ok have "events (outcome_world (run_all ss w')) = events w @ (e1 @ e2) \<and> list_all emitted (e1 @ e2)"
      by simp
    with Ok show ?thesis by (auto simp del: append_assoc)
  qed
qed

lemma rstrip_sep_id: "p = [] \<or> last p \<noteq> CHR ''/'' \<Longrightarrow> rstrip_sep p = p"
  by (cases p rule: rev_cases) (auto simp: rstrip_sep_def)

lemma path_key_start: "cwd w = [] \<Longrightarrow> path_key w p = rstrip_sep p"
  by (simp add: path_key_def)

lemma dirname_join:
  assumes "CHR ''/'' \<notin> set x" and "d \<noteq> []" and "last d \<noteq> CHR ''/''"
  shows "os_path_dirname (d @ CHR ''/'' # x) = d"
proof -
  have 1: "dropWhile (\<lambda>c. c \<noteq> CHR ''/'') (rev x @ CHR ''/'' # rev d) = CHR ''/'' # rev d"
    using assms(1) by (simp add: dropWhile_append)
  have 2: "\<exists>c \<in> set (d @ ''/''). c \<noteq> CHR ''/''"
    using assms(2,3) by (metis last_in_set Un_iff set_append)
  have 3: "rstrip_sep (d @ ''/'') = d"
    using assms(2,3) by (cases d rule: rev_cases) (auto simp: rstrip_sep_def)
  show ?thesis
    using 1 2 3 by (simp add: os_path_dirname_def Let_def)
qed

lemma string_of_nat_digits: "set (string_of_nat n) \<subseteq> set ''0123456789''"
proof (induction n rule: string_of_nat.induct)
  case (1 n)
  have d: "m < 10 \<Longrightarrow> digit_char m \<in> set ''0123456789''" for m
    unfolding digit_char_def by (rule nth_mem) simp
  show ?case
  proof (cases "n < 10")
    case True
    with d[of n] show ?thesis by (subst string_of_nat.simps) simp
  next
    case False
    with "1.IH" d[of "n mod 10"] show ?thesis
      by (subst string_of_nat.simps) auto
  qed
qed

lemma string_of_int_no_sep: "CHR ''/'' \<notin> set (string_of_int i)"
  using string_of_nat_digits by (auto simp: string_of_int_def)

lemma string_of_int_no_dot: "CHR ''.'' \<notin> set (string_of_int i) "
  using string_of_nat_digits by (auto simp: string_of_int_def)

lemma archive_name_key: "rstrip_sep (archive_name now) = archive_name now"
  by (rule rstrip_sep_id) (simp add: archive_name_def)

lemma archive_name_dirname: "os_path_dirname (archive_name now) = ''assets_backups''"
  using dirname_join[of "string_of_int now @ ''.zip''" "''assets_backups''"] string_of_int_no_sep[of now]
  by (simp add: archive_name_def)

lemma archive_name_neq:
  "archive_name now \<noteq> ''assets_backups''" "archive_name now \<noteq> ''assets_backups/.gitignore''"
  "archive_name now \<noteq> ''src/main/resources/assets/tfc''"
proof -
  show "archive_name now \<noteq> ''assets_backups''"
    by (simp add: archive_name_def)
  have "last (archive_name now) = CHR ''p''" by (simp add: archive_name_def)
  then show "archive_name now \<noteq> ''assets_backups/.gitignore''" by auto
  show "archive_name now \<noteq> ''src/main/resources/assets/tfc''" by (simp add: archive_name_def)
qed

lemma last_sep_unique:
  assumes "xs @ c # ys = xs' @ c # ys'" and "c \<notin> set ys" and "c \<notin> set ys'"
  shows "xs = xs' \<and> ys = ys'"
proof -
  have t: "takeWhile (\<lambda>x. x \<noteq> c) (rev (as @ c # bs)) = rev bs" if "c \<notin> set bs" for as bs
  proof -
    have "takeWhile (\<lambda>x. x \<noteq> c) (rev bs @ c # rev as) = rev bs @ takeWhile (\<lambda>x. x \<noteq> c) (c # rev as)"
      by (rule takeWhile_append2) (use that in auto)
    then show ?thesis by simp
  qed
  from t[OF assms(2), of xs] t[OF assms(3), of xs'] assms(1) have "ys = ys'" by simp
  with assms(1) show ?thesis by simp
qed

lemma child_split: "child b k \<longleftrightarrow> (\<exists>name. k = b @ CHR ''/'' # name \<and> name \<noteq> [] \<and> CHR ''/'' \<notin> set name)"
  by (auto simp: child_def prefix_def)

lemma child_parent:
  assumes "child b (p @ CHR ''/'' # name)" and "CHR ''/'' \<notin> set name"
  shows "b = p"
proof -
  from assms(1) obtain nm where e: "p @ CHR ''/'' # name = b @ CHR ''/'' # nm" and n: "CHR ''/'' \<notin> set nm"
    unfolding child_split by blast
  from last_sep_unique[OF e assms(2) n] show ?thesis by simp
qed

lemma wf_world_entry:
  assumes "wf_world w" and "map_of (nodes w) k = Some n" and "CHR ''/'' \<in> set k"
  shows "\<exists>b. map_of (nodes w) b = Some Dir \<and> child b k"
proof -
  from assms(1) have d: "distinct (map fst (nodes w))" by (simp add: wf_world_def)
  from assms(1) map_of_SomeD[OF assms(2)] assms(3)
  have "list_ex (\<lambda>(b, m). m = Dir \<and> child b k) (nodes w)"
    unfolding wf_world_def list_all_iff by blast
  then obtain b where "(b, Dir) \<in> set (nodes w)" "child b k"
    unfolding list_ex_iff by auto
  with d show ?thesis by (intro exI[of _ b]) simp
qed

lemma gitignore_dirname: "os_path_dirname ''assets_backups/.gitignore'' = ''assets_backups''"
  by (simp add: os_path_dirname_def rstrip_sep_def)

lemma absent_children:
  assumes "wf_world w" and "map_of (nodes w) ''assets_backups'' = None"
  shows "map_of (nodes w) ''assets_backups/.gitignore'' = None" "map_of (nodes w) (archive_name now) = None"
proof -
  show "map_of (nodes w) ''assets_backups/.gitignore'' = None"
  proof (cases "map_of (nodes w) ''assets_backups/.gitignore''")
    case (Some n)
    from wf_world_entry[OF assms(1) Some] obtain b where
      b: "map_of (nodes w) b = Some Dir" "child b (''assets_backups'' @ CHR ''/'' # ''.gitignore'')" by auto
    from child_parent[OF b(2)] b(1) assms(2) show ?thesis by simp
  qed simp
  show "map_of (nodes w) (archive_name now) = None"
  proof (cases "map_of (nodes w) (archive_name now)")
    case (Some n)
    have e: "archive_name now = ''assets_backups'' @ CHR ''/'' # (string_of_int now @ ''.zip'')"
      by (simp add: archive_name_def)
    from wf_world_entry[OF assms(1) Some] obtain b where
      b: "map_of (nodes w) b = Some Dir" "child b (archive_name now)" by (auto simp: e)
    from child_parent[OF b(2)[unfolded e]] string_of_int_no_sep[of now] b(1) assms(2)
    show ?thesis by simp
  qed simp
qed

lemma child_below:
  assumes "child base k" and "base = t \<or> prefix (t @ ''/'') base"
  shows "prefix (t @ ''/'') k"
proof -
  from assms(1) have p: "prefix (base @ ''/'') k" by (simp add: child_def)
  from assms(2) have "prefix (t @ ''/'') (base @ ''/'')" by (auto simp: prefix_def)
  from this p show ?thesis by (rule prefix_order.trans)
qed

lemma files_in_append: "files_in (ns @ extra) base = files_in ns base @ files_in extra base"
  by (simp add: files_in_def List.map_filter_def)

lemma dirs_in_append: "dirs_in (ns @ extra) base = dirs_in ns base @ dirs_in extra base"
  by (simp add: dirs_in_def)

lemma walk_cong:
  assumes "\<forall>(k, n) \<in> set extra. \<not> prefix (t @ ''/'') k"
  shows "base = t \<or> prefix (t @ ''/'') base \<Longrightarrow> walk (ns @ extra) base = walk ns base"
proof (induction ns base rule: walk.induct)
  case (1 ns base)
  from assms child_below[OF _ "1.prems"] have no: "\<forall>(k, n) \<in> set extra. \<not> child base k" by blast
  then have f: "files_in extra base = []"
    by (induction extra) (auto simp: files_in_def List.map_filter_simps split: node.splits)
  from no have d: "dirs_in extra base = []"
    by (auto simp: dirs_in_def filter_empty_conv)
  have "walk (ns @ extra) x = walk ns x" if "x \<in> set (dirs_in ns base)" for x
  proof -
    from that have "child base x" by (auto simp: dirs_in_def)
    from child_below[OF this "1.prems"] "1.IH"[OF that] show ?thesis by simp
  qed
  then have m: "map (walk (ns @ extra)) (dirs_in ns base) = map (walk ns) (dirs_in ns base)"
    by (intro map_cong refl)
  show ?case
    unfolding walk.simps[of "ns @ extra" base] walk.simps[of ns base] files_in_append dirs_in_append f d
    by (simp only: m append_Nil2)
qed

lemma walk_files_cong:
  assumes "nodes w' = nodes w @ extra" and "cwd w' = cwd w"
    and "map_of (nodes w) (path_key w target) = Some Dir \<or> path_key w target \<notin> fst ` set extra"
    and "\<forall>(k, n) \<in> set extra. \<not> prefix (path_key w target @ ''/'') k"
  shows "walk_files target w' = walk_files target w"
proof -
  have k: "path_key w' target = path_key w target" using assms(2) by (simp add: path_key_def)
  have t: "map_of (nodes w') (path_key w target) = Some Dir \<longleftrightarrow> map_of (nodes w) (path_key w target) = Some Dir"
  proof (cases "map_of (nodes w) (path_key w target) = Some Dir")
    case True
    then show ?thesis by (simp add: assms(1) map_add_Some_iff)
  next
    case False
    with assms(3) have "map_of extra (path_key w target) = None" by (simp add: map_of_eq_None_iff)
    with False show ?thesis by (simp add: assms(1) map_add_Some_iff)
  qed
  show ?thesis
    unfolding walk_files_def Let_def k t
    by (simp add: assms(1) walk_cong[OF assms(4)])
qed

lemma archive_step_absent:
  assumes c: "cwd w = []" and wf: "wf_world w" and a: "map_of (nodes w) ''assets_backups'' = None"
  shows "\<exists>w'. archive_step now w = Inr w' \<and> cwd w' = []
     \<and> events w' = events w @ [Mkdir ''assets_backups'', Write ''assets_backups/.gitignore'' (Text gitignore_lines),
                               Write (archive_name now) (Zip (archive_entries w))]"
proof -
  let ?w1 = "w\<lparr>nodes := nodes w @ [(''assets_backups'', Dir)], events := events w @ [Mkdir ''assets_backups'']\<rparr>"
  let ?w2 = "w\<lparr>nodes := nodes w @ [(''assets_backups'', Dir), (''assets_backups/.gitignore'', File (Text gitignore_lines))],
                 events := events w @ [Mkdir ''assets_backups'', Write ''assets_backups/.gitignore'' (Text gitignore_lines)]\<rparr>"
  note ch = absent_children(1)[OF wf a] absent_children(2)[OF wf a, of now]
  have nd: "\<not> os_path_isdir ''assets_backups'' w"
    using a c by (simp add: os_path_isdir_def path_key_start rstrip_sep_def)
  have m: "os_mkdir ''assets_backups'' w = Inr ?w1"
    using a c by (simp add: os_mkdir_def path_key_start rstrip_sep_def os_path_dirname_def is_dir_def Let_def)
  have fresh: "''assets_backups/.gitignore'' \<notin> fst ` set (nodes w @ [(''assets_backups'', Dir)])"
    using ch(1) by (auto simp: map_of_eq_None_iff)
  have g: "open_write ''assets_backups/.gitignore'' (Text gitignore_lines) ?w1 = Inr ?w2"
    using a c ch(1) dict_set_fresh[OF fresh]
    by (simp add: open_write_def path_key_start gitignore_dirname is_dir_def Let_def rstrip_sep_id map_add_def)
  have wk: "walk_files ''src/main/resources/assets/tfc'' ?w2 = walk_files ''src/main/resources/assets/tfc'' w"
    by (rule walk_files_cong[where extra = "[(''assets_backups'', Dir), (''assets_backups/.gitignore'', File (Text gitignore_lines))]"])
       (simp_all add: c path_key_start rstrip_sep_def)
  have z: "zipfolder (archive_name now) ''src/main/resources/assets/tfc'' ?w2 =
      Inr (?w2\<lparr>nodes := dict_set (archive_name now) (File (Zip (archive_entries w))) (nodes ?w2),
                 events := events ?w2 @ [Write (archive_name now) (Zip (archive_entries w))]\<rparr>)"
    using a c ch(2) archive_name_neq[of now]
    by (simp add: zipfolder_def Let_def wk open_write_def path_key_start archive_name_key archive_name_dirname
        is_dir_def archive_entries_def map_add_def)
  show ?thesis
    using nd m g z unfolding archive_step_def archive_name_def[symmetric]
    by (simp add: c)
qed

lemma archive_step_present:
  assumes c: "cwd w = []" and a: "map_of (nodes w) ''assets_backups'' = Some n"
  shows "(\<exists>w'. archive_step now w = Inr w' \<and> cwd w' = []
            \<and> events w' = events w @ [Write (archive_name now) (Zip (archive_entries w))])
         \<or> (\<exists>e. archive_step now w = Inl (e, w))"
proof (cases n)
  case Dir
  with a c have d: "os_path_isdir ''assets_backups'' w"
    by (simp add: os_path_isdir_def path_key_start rstrip_sep_def)
  show ?thesis
    using a c Dir unfolding archive_step_def archive_name_def[symmetric]
    by (simp add: d zipfolder_def Let_def open_write_def path_key_start archive_name_key archive_name_dirname
        is_dir_def archive_entries_def)
next
  case (File x)
  with a c have d: "\<not> os_path_isdir ''assets_backups'' w"
    by (simp add: os_path_isdir_def path_key_start rstrip_sep_def)
  show ?thesis
    using a c File unfolding archive_step_def
    by (simp add: d os_mkdir_def Let_def path_key_start rstrip_sep_def)
qed

lemma archive_step_events:
  assumes c: "cwd w = []" and wf: "wf_world w"
  shows "(\<exists>w'. archive_step now w = Inr w' \<and> cwd w' = []
            \<and> events w' = events w @ created_events w @ [Write (archive_name now) (Zip (archive_entries w))])
         \<or> (\<exists>e. archive_step now w = Inl (e, w) \<and> map_of (nodes w) ''assets_backups'' \<noteq> None)"
proof (cases "map_of (nodes w) ''assets_backups''")
  case None
  from archive_step_absent[OF c wf None, of now] None show ?thesis
    by (auto simp: created_events_def)
next
  case (Some n)
  from archive_step_present[OF c Some, of now] Some show ?thesis
    by (auto simp: created_events_def)
qed

lemma os_chdir_events:
  "events (outcome_world (os_chdir p w)) = events w"
  by (simp add: os_chdir_def)

lemma archive_step_no_descriptor:
  "\<exists>evs. events (outcome_world (archive_step now w)) = events w @ evs
      \<and> list_all (\<lambda>ev. \<not> is_descriptor_write ev) evs"
proof -
  have mk: "\<exists>evs. events (outcome_world (os_mkdir p w)) = events w @ evs
      \<and> list_all (\<lambda>ev. \<not> is_descriptor_write ev) evs" for p w
    by (auto simp: os_mkdir_def Let_def)
  have ow: "\<forall>d. c \<noteq> Json d \<Longrightarrow> \<exists>evs. events (outcome_world (open_write p c w)) = events w @ evs
      \<and> list_all (\<lambda>ev. \<not> is_descriptor_write ev) evs" for p c w
    by (cases c) (auto simp: open_write_def Let_def)
  have zf: "\<exists>evs. events (outcome_world (zipfolder z t w)) = events w @ evs
      \<and> list_all (\<lambda>ev. \<not> is_descriptor_write ev) evs" for z t w
    unfolding zipfolder_def Let_def by (rule ow) simp
  have first: "\<exists>evs. events (outcome_world
      (if \<not> os_path_isdir ''assets_backups'' w
            then (case os_mkdir ''assets_backups'' w of
                    Inl e \<Rightarrow> Inl e
                  | Inr w1 \<Rightarrow> open_write ''assets_backups/.gitignore'' (Text gitignore_lines) w1)
            else Inr w)) = events w @ evs \<and> list_all (\<lambda>ev. \<not> is_descriptor_write ev) evs"
  proof (cases "os_path_isdir ''assets_backups'' w")
    case True
    then show ?thesis by simp
  next
    case False
    show ?thesis
    proof (cases "os_mkdir ''assets_backups'' w" rule: outcome_cases)
      case (Fail e w')
      with mk[of "''assets_backups''" w] False show ?thesis by simp
    next
      case (Ok w')
      from mk[of "''assets_backups''" w] Ok obtain e1 where 1: "events w' = events w @ e1"
        "list_all (\<lambda>ev. \<not> is_descriptor_write ev) e1" by auto
      from ow[of "Text gitignore_lines" "''assets_backups/.gitignore''" w'] obtain e2 where
        2: "events (outcome_world (open_write ''assets_backups/.gitignore'' (Text gitignore_lines) w')) = events w' @ e2"
        "list_all (\<lambda>ev. \<not> is_descriptor_write ev) e2" by auto
      from 1 2 False Ok show ?thesis
        by (intro exI[of _ "e1 @ e2"]) simp
    qed
  qed
  then obtain e1 where 1: "events (outcome_world
      (if \<not> os_path_isdir ''assets_backups'' w
            then (case os_mkdir ''assets_backups'' w of
                    Inl e \<Rightarrow> Inl e
                  | Inr w1 \<Rightarrow> open_write ''assets_backups/.gitignore'' (Text gitignore_lines) w1)
            else Inr w)) = events w @ e1" "list_all (\<lambda>ev. \<not> is_descriptor_write ev) e1" by blast
  show ?thesis
  proof (cases "(if \<not> os_path_isdir ''assets_backups'' w
            then (case os_mkdir ''assets_backups'' w of
                    Inl e \<Rightarrow> Inl e
                  | Inr w1 \<Rightarrow> open_write ''assets_backups/.gitignore'' (Text gitignore_lines) w1)
            else Inr w)" rule: outcome_cases)
    case (Fail e w')
    with 1 show ?thesis unfolding archive_step_def by (intro exI[of _ e1]) simp
  next
    case (Ok w')
    from zf[of "''assets_backups/'' @ string_of_int now @ ''.zip''" "''src/main/resources/assets/tfc''" w']
    obtain e2 where 2: "events (outcome_world (zipfolder (''assets_backups/'' @ string_of_int now @ ''.zip'') ''src/main/resources/assets/tfc'' w')) = events w' @ e2"
      "list_all (\<lambda>ev. \<not> is_descriptor_write ev) e2" by blast
    from 1 2 Ok show ?thesis unfolding archive_step_def by (intro exI[of _ "e1 @ e2"]) simp
  qed
qed

lemma generate_events:
  "\<exists>pre post. events (outcome_world (generate steel now w)) = events w @ pre @ post
      \<and> list_all (\<lambda>ev. \<not> is_descriptor_write ev) pre \<and> list_all emitted post"
proof -
  from archive_step_no_descriptor[of now w] obtain pre where
    pre: "events (outcome_world (archive_step now w)) = events w @ pre" "list_all (\<lambda>ev. \<not> is_descriptor_write ev) pre"
    by blast
  show ?thesis
  proof (cases "archive_step now w" rule: outcome_cases)
    case (Fail e w')
    with pre show ?thesis by (intro exI[of _ pre] exI[of _ "[]"]) (simp add: generate_def)
  next
    case (Ok w1)
    show ?thesis
    proof (cases "os_chdir ''src/main/resources/assets/tfc/'' w1" rule: outcome_cases)
      case (Fail e w')
      with os_chdir_events[of "''src/main/resources/assets/tfc/''" w1] have "events w' = events w1" by simp
      with pre Ok Fail show ?thesis by (intro exI[of _ pre] exI[of _ "[]"]) (simp add: generate_def)
    next
      case (Ok w2)
      with os_chdir_events[of "''src/main/resources/assets/tfc/''" w1] have e2: "events w2 = events w1" by simp
      from run_all_events[OF emits_driver, of steel w2] obtain evs where
        evs: "events (outcome_world (run_all (driver steel) w2)) = events w2 @ evs" "list_all emitted evs"
        by blast
      with pre \<open>archive_step now w = Inr w1\<close> Ok e2 show ?thesis
        by (intro exI[of _ pre] exI[of _ evs]) (simp add: generate_def)
    qed
  qed
qed


subsection \<open>What the archive holds\<close>

lemma parent_below:
  assumes c: "child b k" and p: "prefix (t @ ''/'') k"
  shows "b = t \<or> prefix (t @ ''/'') b"
proof (cases "length (t @ ''/'') \<le> length b")
  case True
  from c have "prefix b k" by (auto simp: child_def prefix_def)
  from prefix_length_prefix[OF p this True] show ?thesis by simp
next
  case False
  from c obtain nm where k: "k = b @ CHR ''/'' # nm" and nm: "CHR ''/'' \<notin> set nm"
    unfolding child_split by blast
  from p obtain r where r: "k = t @ CHR ''/'' # r" by (auto simp: prefix_def)
  from False have "length b \<le> length t" by simp
  with k r have "prefix b t" by (metis prefix_length_prefix prefixI)
  then obtain s where s: "t = b @ s" by (auto simp: prefix_def)
  with k r have e: "s @ CHR ''/'' # r = CHR ''/'' # nm" by simp
  show ?thesis
  proof (cases s)
    case Nil
    with s show ?thesis by simp
  next
    case (Cons x s')
    with e have "nm = s' @ CHR ''/'' # r" by simp
    with nm show ?thesis by simp
  qed
qed

lemma files_in_set: "(k, c) \<in> set (files_in ns base) \<longleftrightarrow> (k, File c) \<in> set ns \<and> child base k"
  by (induction ns) (auto simp: files_in_def List.map_filter_simps split: node.splits if_splits)

lemma dirs_in_set: "b \<in> set (dirs_in ns base) \<longleftrightarrow> (b, Dir) \<in> set ns \<and> child base b"
  by (force simp: dirs_in_def)

lemma walk_set:
  "set (walk ns base) = set (files_in ns base) \<union> (\<Union>b \<in> set (dirs_in ns base). set (walk ns b))"
  by (subst walk.simps) simp

lemma walk_below:
  "(k, c) \<in> set (walk ns base) \<Longrightarrow>
     (k, File c) \<in> set ns \<and> (\<exists>r. k = base @ CHR ''/'' # r \<and> r \<noteq> [] \<and> hd r \<noteq> CHR ''/'')"
proof (induction ns base rule: walk.induct)
  case (1 ns base)
  from "1.prems" consider (here) "(k, c) \<in> set (files_in ns base)"
    | (deeper) b where "b \<in> set (dirs_in ns base)" "(k, c) \<in> set (walk ns b)"
    unfolding walk_set[of ns base] by blast
  then show ?case
  proof cases
    case here
    then have m: "(k, File c) \<in> set ns" and "child base k" by (simp_all add: files_in_set)
    then obtain nm where "k = base @ CHR ''/'' # nm" "nm \<noteq> []" "CHR ''/'' \<notin> set nm"
      unfolding child_split by blast
    moreover then have "hd nm \<noteq> CHR ''/''" by (cases nm) auto
    ultimately show ?thesis using m by blast
  next
    case deeper
    from "1.IH"[OF deeper] obtain r where m: "(k, File c) \<in> set ns" and r: "k = b @ CHR ''/'' # r" by blast
    from deeper(1) have "child base b" by (simp add: dirs_in_set)
    then obtain nm where nm: "b = base @ CHR ''/'' # nm" "nm \<noteq> []" "CHR ''/'' \<notin> set nm"
      unfolding child_split by blast
    then have "hd (nm @ CHR ''/'' # r) \<noteq> CHR ''/''" by (cases nm) auto
    with nm r have "k = base @ CHR ''/'' # (nm @ CHR ''/'' # r) \<and> nm @ CHR ''/'' # r \<noteq> [] \<and> hd (nm @ CHR ''/'' # r) \<noteq> CHR ''/''"
      by simp
    with m show ?thesis by blast
  qed
qed

lemma wf_parent:
  assumes wf: "wf_world w" and m: "(k, n) \<in> set (nodes w)" and p: "prefix (t @ ''/'') k"
  shows "\<exists>b. (b, Dir) \<in> set (nodes w) \<and> child b k \<and> (b = t \<or> prefix (t @ ''/'') b)"
proof -
  from p have "CHR ''/'' \<in> set k" by (auto simp: prefix_def)
  with wf m have "list_ex (\<lambda>(b, m). m = Dir \<and> child b k) (nodes w)"
    unfolding wf_world_def list_all_iff by blast
  then obtain b where b: "(b, Dir) \<in> set (nodes w)" "child b k"
    unfolding list_ex_iff by auto
  with parent_below[OF b(2) p] show ?thesis by blast
qed

lemma walk_visits:
  assumes wf: "wf_world w"
  shows "(b, Dir) \<in> set (nodes w) \<Longrightarrow> prefix (t @ ''/'') b \<Longrightarrow> set (walk (nodes w) b) \<subseteq> set (walk (nodes w) t)"
proof (induction "length b" arbitrary: b rule: less_induct)
  case less
  from wf_parent[OF wf less.prems] obtain b' where b': "(b', Dir) \<in> set (nodes w)" "child b' b"
    "b' = t \<or> prefix (t @ ''/'') b'" by blast
  from b'(2) have l: "length b' < length b" by (auto simp: child_def prefix_def)
  from less.prems(1) b'(2) have "b \<in> set (dirs_in (nodes w) b')" by (simp add: dirs_in_set)
  then have s: "set (walk (nodes w) b) \<subseteq> set (walk (nodes w) b')"
    unfolding walk_set[of "nodes w" b'] by blast
  from b'(3) show ?case
  proof
    assume "b' = t"
    with s show ?thesis by simp
  next
    assume "prefix (t @ ''/'') b'"
    from less.hyps[OF l b'(1) this] s show ?thesis by blast
  qed
qed

lemma walk_all:
  assumes wf: "wf_world w" and m: "(k, File c) \<in> set (nodes w)" and p: "prefix (t @ ''/'') k"
  shows "(k, c) \<in> set (walk (nodes w) t)"
proof -
  from wf_parent[OF wf m p] obtain b where b: "(b, Dir) \<in> set (nodes w)" "child b k"
    "b = t \<or> prefix (t @ ''/'') b" by blast
  from m b(2) have "(k, c) \<in> set (files_in (nodes w) b)" by (simp add: files_in_set)
  then have i: "(k, c) \<in> set (walk (nodes w) b)" unfolding walk_set[of "nodes w" b] by blast
  from b(3) show ?thesis
  proof
    assume "b = t"
    with i show ?thesis by simp
  next
    assume "prefix (t @ ''/'') b"
    from walk_visits[OF wf b(1) this] i show ?thesis by blast
  qed
qed

lemma reaches_top:
  assumes wf: "wf_world w"
  shows "(k, n) \<in> set (nodes w) \<Longrightarrow> prefix (t @ ''/'') k \<Longrightarrow> (t, Dir) \<in> set (nodes w)"
proof (induction "length k" arbitrary: k n rule: less_induct)
  case less
  from wf_parent[OF wf less.prems] obtain b where b: "(b, Dir) \<in> set (nodes w)" "child b k"
    "b = t \<or> prefix (t @ ''/'') b" by blast
  from b(2) have l: "length b < length k" by (auto simp: child_def prefix_def)
  from b(3) show ?case
  proof
    assume "b = t"
    with b(1) show ?thesis by simp
  next
    assume "prefix (t @ ''/'') b"
    from less.hyps[OF l b(1) this] show ?thesis .
  qed
qed

lemma archive_entries_walk:
  assumes c: "cwd w = []"
  shows "set (archive_entries w) =
     (if map_of (nodes w) ''src/main/resources/assets/tfc'' = Some Dir
      then {(r, c). (''src/main/resources/assets/tfc'' @ CHR ''/'' # r, c) \<in> set (walk (nodes w) ''src/main/resources/assets/tfc'')}
      else {})"
proof (cases "map_of (nodes w) ''src/main/resources/assets/tfc'' = Some Dir")
  case False
  with c show ?thesis
    by (simp add: archive_entries_def walk_files_def path_key_start rstrip_sep_def)
next
  case True
  let ?t = "''src/main/resources/assets/tfc''"
  have k: "path_key w ?t = ?t" using c by (simp add: path_key_start rstrip_sep_def)
  have e: "archive_entries w = map (\<lambda>(k, c). (drop (Suc (length ?t)) k, c)) (walk (nodes w) ?t)"
  proof -
    have "(case (case x of (k, c) \<Rightarrow> (os_path_join ?t [drop (Suc (length ?t)) k], c)) of
             (fn, c) \<Rightarrow> (drop (length ?t + 1) fn, c)) = (case x of (k, c) \<Rightarrow> (drop (Suc (length ?t)) k, c))"
      if "x \<in> set (walk (nodes w) ?t)" for x
    proof -
      obtain k c where x: "x = (k, c)" by (cases x)
      from walk_below[OF that[unfolded x]] obtain r where r: "k = ?t @ CHR ''/'' # r" "r \<noteq> []" "hd r \<noteq> CHR ''/''"
        by blast
      then show ?thesis by (simp add: x)
    qed
    then show ?thesis
      unfolding archive_entries_def walk_files_def Let_def k using True by (simp add: comp_def)
  qed
  have "(r, c) \<in> set (archive_entries w) \<longleftrightarrow> (?t @ CHR ''/'' # r, c) \<in> set (walk (nodes w) ?t)" for r c
  proof
    assume "(r, c) \<in> set (archive_entries w)"
    then obtain k where kc: "(k, c) \<in> set (walk (nodes w) ?t)" and d: "r = drop (Suc (length ?t)) k"
      unfolding e by auto
    from walk_below[OF kc] obtain r' where "k = ?t @ CHR ''/'' # r'" by blast
    with d kc show "(?t @ CHR ''/'' # r, c) \<in> set (walk (nodes w) ?t)" by simp
  next
    assume "(?t @ CHR ''/'' # r, c) \<in> set (walk (nodes w) ?t)"
    then have "(drop (Suc (length ?t)) (?t @ CHR ''/'' # r), c) \<in> set (archive_entries w)"
      unfolding e by force
    then show "(r, c) \<in> set (archive_entries w)" by simp
  qed
  with True show ?thesis by auto
qed

lemma archive_entries_tree:
  assumes c: "cwd w = []" and wf: "wf_world w"
  shows "(r, x) \<in> set (archive_entries w) \<longleftrightarrow>
     map_of (nodes w) (''src/main/resources/assets/tfc/'' @ r) = Some (File x)"
proof -
  let ?t = "''src/main/resources/assets/tfc''"
  from wf have d: "distinct (map fst (nodes w))" by (simp add: wf_world_def)
  have m: "map_of (nodes w) k = Some n \<longleftrightarrow> (k, n) \<in> set (nodes w)" for k n
    using d by (auto dest: map_of_SomeD)
  have p: "prefix (?t @ ''/'') (?t @ CHR ''/'' # r)" by (simp add: prefix_def)
  have q: "''src/main/resources/assets/tfc/'' @ r = ?t @ CHR ''/'' # r" by simp
  show ?thesis
  proof (cases "map_of (nodes w) ?t = Some Dir")
    case True
    have "(?t @ CHR ''/'' # r, x) \<in> set (walk (nodes w) ?t) \<longleftrightarrow> (?t @ CHR ''/'' # r, File x) \<in> set (nodes w)"
      using walk_below[of "?t @ CHR ''/'' # r" x "nodes w" ?t] walk_all[OF wf _ p, of x] by blast
    with True show ?thesis
      unfolding q m by (simp only: archive_entries_walk[OF c] m[symmetric]) simp
  next
    case False
    have "(?t @ CHR ''/'' # r, File x) \<notin> set (nodes w)"
    proof
      assume "(?t @ CHR ''/'' # r, File x) \<in> set (nodes w)"
      from reaches_top[OF wf this p] False show False by (simp add: m)
    qed
    with False show ?thesis
      unfolding q m by (simp only: archive_entries_walk[OF c] m[symmetric]) simp
  qed
qed

lemma archive_step_cases:
  assumes c: "cwd w = []" and wf: "wf_world w"
  shows "(if (\<exists>x. map_of (nodes w) ''assets_backups'' = Some (File x)) \<or> map_of (nodes w) (archive_name now) = Some Dir
          then \<exists>e. archive_step now w = Inl (e, w)
          else \<exists>w'. archive_step now w = Inr w' \<and> cwd w' = []
                 \<and> events w' = events w @ created_events w @ [Write (archive_name now) (Zip (archive_entries w))])"
proof (cases "map_of (nodes w) ''assets_backups''")
  case None
  from absent_children(2)[OF wf None, of now] archive_step_absent[OF c wf None, of now] None
  show ?thesis by (simp add: created_events_def)
next
  case (Some n)
  show ?thesis
  proof (cases n)
    case Dir
    with Some c have d: "os_path_isdir ''assets_backups'' w"
      by (simp add: os_path_isdir_def path_key_start rstrip_sep_def)
    show ?thesis
      using Some c Dir unfolding archive_step_def archive_name_def[symmetric]
      by (simp add: d zipfolder_def Let_def open_write_def path_key_start archive_name_key archive_name_dirname
          is_dir_def archive_entries_def created_events_def)
  next
    case (File x)
    with Some c have d: "\<not> os_path_isdir ''assets_backups'' w"
      by (simp add: os_path_isdir_def path_key_start rstrip_sep_def)
    show ?thesis
      using Some c File unfolding archive_step_def
      by (simp add: d os_mkdir_def Let_def path_key_start rstrip_sep_def)
  qed
qed


section \<open>The claims about runs\<close>

subsection \<open>The provenance marker\<close>

text \<open>
  Claim C7. The object that \<open>blockstate\<close> and \<open>model\<close> write has the \<open>__comment\<close> field
  that names the generating function, also after pruning; the file a call leaves behind
  carries it; and in a run of the generator every descriptor written, from the first
  statement to the last or to the exception that ends the run, is marked.
\<close>

theorem provenance_marker:
  "map_of (blockstate_descriptor m t v) ''__comment'' =
       Some (JStr ''Generated by generateResources.py function: blockstate'')
   \<and> map_of (model_descriptor parent ts) ''__comment'' =
       Some (JStr ''Generated by generateResources.py function: model'')
   \<and> (blockstate parts m t v w = Inr w' \<longrightarrow>
        (\<exists>d. map_of (nodes w') (path_key w (os_path_join ''blockstates'' parts @ ''.json'')) = Some (File (Json d))
           \<and> marked d))
   \<and> (model parts' parent ts w = Inr w' \<longrightarrow>
        (\<exists>d. map_of (nodes w') (path_key w (os_path_join ''models'' parts' @ ''.json'')) = Some (File (Json d))
           \<and> marked d))
   \<and> (\<exists>evs. events (outcome_world (generate steel now w)) = events w @ evs
         \<and> (\<forall>k d. Write k (Json d) \<in> set evs \<longrightarrow> marked d))"
proof (intro conjI impI)
  show "map_of (blockstate_descriptor m t v) ''__comment'' =
       Some (JStr ''Generated by generateResources.py function: blockstate'')"
    by (rule blockstate_marker)
  show "map_of (model_descriptor parent ts) ''__comment'' =
       Some (JStr ''Generated by generateResources.py function: model'')"
    by (rule model_marker)
  show "\<exists>d. map_of (nodes w') (path_key w (os_path_join ''blockstates'' parts @ ''.json'')) = Some (File (Json d))
           \<and> marked d" if "blockstate parts m t v w = Inr w'"
    using blockstate_writes[OF that] blockstate_marker[of m t v] by (auto simp: marked_def)
  show "\<exists>d. map_of (nodes w') (path_key w (os_path_join ''models'' parts' @ ''.json'')) = Some (File (Json d))
           \<and> marked d" if "model parts' parent ts w = Inr w'"
    using model_writes[OF that] model_marker[of parent ts] by (auto simp: marked_def)
  from generate_events[of steel now w] obtain pre post where
    e: "events (outcome_world (generate steel now w)) = events w @ pre @ post"
      "list_all (\<lambda>ev. \<not> is_descriptor_write ev) pre" "list_all emitted post" by blast
  have "marked d" if "Write k (Json d) \<in> set (pre @ post)" for k d
  proof -
    from that e(2) have "Write k (Json d) \<in> set post" by (auto simp: list_all_iff)
    with e(3) show ?thesis by (auto simp: list_all_iff emitted_def)
  qed
  with e(1) show "\<exists>evs. events (outcome_world (generate steel now w)) = events w @ evs
         \<and> (\<forall>k d. Write k (Json d) \<in> set evs \<longrightarrow> marked d)"
    by blast
qed

theorem provenance_marker_witness:
  "\<exists>w' d. model [''item'', ''flat'', ''clay''] ''item/generated'' (Some [(''layer0'', ''tfc:items/flat/clay'')])
             \<lparr>nodes = [], cwd = [], events = []\<rparr> = Inr w'
     \<and> map_of (nodes w') ''models/item/flat/clay.json'' = Some (File (Json d))
     \<and> marked d"
proof -
  let ?w = "\<lparr>nodes = [], cwd = [], events = []\<rparr>"
  obtain w' where run: "model [''item'', ''flat'', ''clay''] ''item/generated'' (Some [(''layer0'', ''tfc:items/flat/clay'')]) ?w = Inr w'"
    by (simp add: model_def os_makedirs_def ancestors_def os_path_dirname_def rstrip_sep_def
      path_key_def os_mkdir_def is_dir_def open_write_def Let_def)
  from provenance_marker[where parent = "''item/generated''" and ts = "Some [(''layer0'', ''tfc:items/flat/clay'')]"
      and parts' = "[''item'', ''flat'', ''clay'']" and w = ?w and w' = w'] run
  have "\<exists>d. map_of (nodes w') (path_key ?w (os_path_join ''models'' [''item'', ''flat'', ''clay''] @ ''.json'')) = Some (File (Json d))
           \<and> marked d" by blast
  with run show ?thesis by (auto simp: path_key_def rstrip_sep_def)
qed

subsection \<open>Archive first\<close>

text \<open>
  Claim C8. A run started in the project directory changes the file system in this order:
  first the archive root and its ignore-all file, made exactly when the archive root is not
  there; then the one archive, named by the clock value; only then directories and
  descriptors. The archive holds the regular files the output tree held when the run
  began, all of them and nothing else, each under its path below the tree. The archival
  step raises only when the archive root is a regular file or the name of the archive is
  taken by a directory; then nothing has been made and nothing follows.
\<close>

theorem archive_precedes_emission:
  assumes "cwd w = []" and "wf_world w"
  shows "(if (\<exists>x. map_of (nodes w) ''assets_backups'' = Some (File x)) \<or> map_of (nodes w) (archive_name now) = Some Dir
          then \<exists>e. generate steel now w = Inl (e, w)
          else \<exists>post. events (outcome_world (generate steel now w))
                   = events w @ created_events w @ [Write (archive_name now) (Zip (archive_entries w))] @ post
                 \<and> list_all (\<lambda>ev. is_mkdir ev \<or> is_descriptor_write ev) post)
       \<and> (\<forall>r x. (r, x) \<in> set (archive_entries w)
              \<longleftrightarrow> map_of (nodes w) (''src/main/resources/assets/tfc/'' @ r) = Some (File x))"
proof (rule conjI)
  show "\<forall>r x. (r, x) \<in> set (archive_entries w)
              \<longleftrightarrow> map_of (nodes w) (''src/main/resources/assets/tfc/'' @ r) = Some (File x)"
    using archive_entries_tree[OF assms] by blast
  let ?bad = "(\<exists>x. map_of (nodes w) ''assets_backups'' = Some (File x)) \<or> map_of (nodes w) (archive_name now) = Some Dir"
  show "if ?bad
          then \<exists>e. generate steel now w = Inl (e, w)
          else \<exists>post. events (outcome_world (generate steel now w))
                   = events w @ created_events w @ [Write (archive_name now) (Zip (archive_entries w))] @ post
                 \<and> list_all (\<lambda>ev. is_mkdir ev \<or> is_descriptor_write ev) post"
  proof (cases ?bad)
    case True
    with archive_step_cases[OF assms, of now] obtain e where "archive_step now w = Inl (e, w)"
      by (auto split: if_splits)
    then have "generate steel now w = Inl (e, w)" by (simp add: generate_def)
    with True show ?thesis by (simp only: if_True) blast
  next
    case False
    with archive_step_cases[OF assms, of now] obtain w1 where ok: "archive_step now w = Inr w1" "cwd w1 = []"
      "events w1 = events w @ created_events w @ [Write (archive_name now) (Zip (archive_entries w))]"
      by (auto split: if_splits)
    have "\<exists>post. events (outcome_world (generate steel now w))
                   = events w @ created_events w @ [Write (archive_name now) (Zip (archive_entries w))] @ post
                 \<and> list_all (\<lambda>ev. is_mkdir ev \<or> is_descriptor_write ev) post"
    proof (cases "os_chdir ''src/main/resources/assets/tfc/'' w1" rule: outcome_cases)
      case (Fail e w')
      with os_chdir_events[of "''src/main/resources/assets/tfc/''" w1] have "events w' = events w1" by simp
      with ok Fail show ?thesis
        by (intro exI[of _ "[]"]) (simp add: generate_def)
    next
      case (Ok w2)
      with os_chdir_events[of "''src/main/resources/assets/tfc/''" w1] have e2: "events w2 = events w1" by simp
      from run_all_events[OF emits_driver, of steel w2] obtain evs where
        evs: "events (outcome_world (run_all (driver steel) w2)) = events w2 @ evs" "list_all emitted evs"
        by blast
      from evs(2) have "list_all (\<lambda>ev. is_mkdir ev \<or> is_descriptor_write ev) evs"
        by (auto simp: list_all_iff emitted_def)
      with ok Ok e2 evs(1) show ?thesis
        by (intro exI[of _ evs]) (simp add: generate_def)
    qed
    with False show ?thesis by (simp only: if_False)
  qed
qed


theorem archive_precedes_emission_witness:
  "cwd fresh_checkout = [] \<and> wf_world fresh_checkout \<and> cwd used_checkout = [] \<and> wf_world used_checkout
   \<and> (\<exists>post. events (outcome_world (generate [''steel'', ''blue_steel'', ''red_steel'', ''black_steel''] 1541260800 fresh_checkout))
        = [Mkdir ''assets_backups'',
           Write ''assets_backups/.gitignore'' (Text gitignore_lines),
           Write ''assets_backups/1541260800.zip'' (Zip [(''blockstates/old.json'', Json [(''variants'', JDict [])])])] @ post
      \<and> list_all (\<lambda>ev. is_mkdir ev \<or> is_descriptor_write ev) post)
   \<and> (\<exists>post. events (outcome_world (generate [''steel'', ''blue_steel'', ''red_steel'', ''black_steel''] 1541347200 used_checkout))
        = [Write ''assets_backups/1541347200.zip''
             (Zip [(''sounds.json'', Json []), (''blockstates/old.json'', Json [(''variants'', JDict [])])])] @ post
      \<and> list_all (\<lambda>ev. is_mkdir ev \<or> is_descriptor_write ev) post)"
proof -
  have c: "cwd fresh_checkout = []" "cwd used_checkout = []"
    by (simp_all add: fresh_checkout_def used_checkout_def)
  have wf: "wf_world fresh_checkout" "wf_world used_checkout"
    by (simp_all add: fresh_checkout_def used_checkout_def wf_world_def child_def)
  have nm: "archive_name 1541260800 = ''assets_backups/1541260800.zip''"
    "archive_name 1541347200 = ''assets_backups/1541347200.zip''"
    by (simp_all add: archive_name_def string_of_int_def string_of_nat.simps digit_char_def)
  have a: "map_of (nodes fresh_checkout) ''assets_backups'' = None"
    "map_of (nodes fresh_checkout) ''assets_backups/1541260800.zip'' = None"
    "map_of (nodes used_checkout) ''assets_backups'' = Some Dir"
    "map_of (nodes used_checkout) ''assets_backups/1541347200.zip'' = None"
    by (simp_all add: fresh_checkout_def used_checkout_def)
  have cr: "created_events fresh_checkout = [Mkdir ''assets_backups'', Write ''assets_backups/.gitignore'' (Text gitignore_lines)]"
    "created_events used_checkout = []"
    using a by (simp_all add: created_events_def)
  have ar: "archive_entries fresh_checkout = [(''blockstates/old.json'', Json [(''variants'', JDict [])])]"
    "archive_entries used_checkout = [(''sounds.json'', Json []), (''blockstates/old.json'', Json [(''variants'', JDict [])])]"
    by (simp_all add: archive_entries_def walk_files_def fresh_checkout_def used_checkout_def path_key_def
        rstrip_sep_def Let_def walk.simps files_in_def dirs_in_def child_def List.map_filter_simps)
  have ev: "events fresh_checkout = []" "events used_checkout = []"
    by (simp_all add: fresh_checkout_def used_checkout_def)
  from archive_precedes_emission[OF c(1) wf(1), where now = 1541260800
      and steel = "[''steel'', ''blue_steel'', ''red_steel'', ''black_steel'']", THEN conjunct1]
    archive_precedes_emission[OF c(2) wf(2), where now = 1541347200
      and steel = "[''steel'', ''blue_steel'', ''red_steel'', ''black_steel'']", THEN conjunct1]
  show ?thesis
    unfolding nm cr ar by (simp add: a c wf ev)
qed


section \<open>The effect of a run on the tree\<close>

lemma path_key_key_of: "path_key w p = key_of (cwd w) p"
  by (simp add: path_key_def key_of_def)

lemma overrides_id: "overrides (\<lambda>m. m)"
  unfolding overrides_def by (rule exI[of _ "{}"]) simp

lemma overrides_comp:
  assumes "overrides f" and "overrides g"
  shows "overrides (\<lambda>m. g (f m))"
proof -
  from assms(1) obtain K1 g1 where f: "\<And>m k. f m k = (if k \<in> K1 then g1 k else m k)"
    unfolding overrides_def by blast
  from assms(2) obtain K2 g2 where g: "\<And>m k. g m k = (if k \<in> K2 then g2 k else m k)"
    unfolding overrides_def by blast
  show ?thesis unfolding overrides_def
    by (rule exI[of _ "K1 \<union> K2"], rule exI[of _ "\<lambda>k. if k \<in> K2 then g2 k else g1 k"]) (simp add: f g)
qed

lemma overrides_wj: "overrides (wj_effect c p d)"
  unfolding overrides_def
  by (rule exI[of _ "insert (key_of c p) (key_of c ` set (ancestors (os_path_dirname p)))"],
      rule exI[of _ "\<lambda>k. if k = key_of c p then Some (File (Json d)) else Some Dir"])
     (auto simp: wj_effect_def)

lemma overrides_agree:
  assumes "overrides f" and "m k = m' k"
  shows "f m k = f m' k"
proof -
  from assms(1) obtain K g where f: "\<And>m k. f m k = (if k \<in> K then g k else m k)"
    unfolding overrides_def by blast
  show ?thesis by (simp add: f assms(2))
qed

lemma overrides_idem:
  assumes "overrides f" and "m' k = f m k"
  shows "f m' k = f m k"
proof -
  from assms(1) obtain K g where f: "\<And>m k. f m k = (if k \<in> K then g k else m k)"
    unfolding overrides_def by blast
  from assms(2) show ?thesis by (simp add: f split: if_splits)
qed

lemma makedirs_each_effect:
  "makedirs_each as w = Inr w' \<Longrightarrow>
     cwd w' = cwd w \<and>
     map_of (nodes w') = (\<lambda>k. if k \<in> key_of (cwd w) ` set as then Some Dir else map_of (nodes w) k)"
proof (induction as arbitrary: w)
  case Nil
  then show ?case by simp
next
  case (Cons a as)
  show ?case
  proof (cases "map_of (nodes w) (path_key w a)")
    case None
    with Cons.prems obtain w1 where w1: "os_mkdir a w = Inr w1" and r: "makedirs_each as w1 = Inr w'"
      by (auto split: sum.splits)
    from os_mkdir_Inr[OF w1] have c1: "cwd w1 = cwd w"
      and n1: "map_of (nodes w1) = (map_of (nodes w))(key_of (cwd w) a \<mapsto> Dir)"
      by (auto simp: path_key_key_of fun_eq_iff map_add_def split: option.splits)
    from Cons.IH[OF r] c1 n1 show ?thesis by (auto simp: fun_eq_iff)
  next
    case (Some n)
    with Cons.prems have n: "n = Dir" and r: "makedirs_each as w = Inr w'"
      by (auto split: node.splits)
    from Cons.IH[OF r] Some n show ?thesis by (auto simp: fun_eq_iff path_key_key_of)
  qed
qed

lemma write_json_acts: "acts c (write_json p d) (wj_effect c p d)"
  unfolding acts_def
proof (intro allI impI)
  fix w w' assume c: "cwd w = c" and r: "write_json p d w = Inr w'"
  from r obtain w1 where 1: "os_makedirs (os_path_dirname p) w = Inr w1"
    and 2: "open_write p (Json d) w1 = Inr w'"
    by (auto simp: write_json_def split: sum.splits)
  from 1 have "makedirs_each (ancestors (os_path_dirname p)) w = Inr w1"
    by (auto simp: os_makedirs_def split: if_splits)
  from makedirs_each_effect[OF this] c have c1: "cwd w1 = c"
    and n1: "map_of (nodes w1) = (\<lambda>k. if k \<in> key_of c ` set (ancestors (os_path_dirname p)) then Some Dir else map_of (nodes w) k)"
    by auto
  from open_write_Inr[OF 2] c1 have c2: "cwd w' = c"
    and n2: "map_of (nodes w') = (map_of (nodes w1))(key_of c p \<mapsto> File (Json d))"
    by (auto simp: map_of_dict_set path_key_key_of)
  from c2 n1 n2 show "cwd w' = c \<and> map_of (nodes w') = wj_effect c p d (map_of (nodes w))"
    by (auto simp: wj_effect_def fun_eq_iff)
qed

lemma acts_nil: "acts c (run_all []) (\<lambda>m. m)"
  by (simp add: acts_def)

lemma acts_cons:
  assumes "acts c s f" and "acts c (run_all ss) g"
  shows "acts c (run_all (s # ss)) (\<lambda>m. g (f m))"
  unfolding acts_def
proof (intro allI impI)
  fix w w' assume c: "cwd w = c" and r: "run_all (s # ss) w = Inr w'"
  from r obtain w1 where 1: "s w = Inr w1" and 2: "run_all ss w1 = Inr w'"
    by (auto split: sum.splits)
  from assms(1) c 1 have "cwd w1 = c" "map_of (nodes w1) = f (map_of (nodes w))"
    unfolding acts_def by blast+
  with assms(2) 2 show "cwd w' = c \<and> map_of (nodes w') = g (f (map_of (nodes w)))"
    unfolding acts_def by metis
qed

lemma run_all_append:
  "run_all (xs @ ys) w = (case run_all xs w of Inl e \<Rightarrow> Inl e | Inr w' \<Rightarrow> run_all ys w')"
  by (induction xs arbitrary: w) (auto split: sum.splits)

lemma acts_append:
  assumes "acts c (run_all xs) f" and "acts c (run_all ys) g"
  shows "acts c (run_all (xs @ ys)) (\<lambda>m. g (f m))"
  unfolding acts_def
proof (intro allI impI)
  fix w w' assume c: "cwd w = c" and r: "run_all (xs @ ys) w = Inr w'"
  from r obtain w1 where 1: "run_all xs w = Inr w1" and 2: "run_all ys w1 = Inr w'"
    by (auto simp: run_all_append split: sum.splits)
  from assms(1) c 1 have "cwd w1 = c" "map_of (nodes w1) = f (map_of (nodes w))"
    unfolding acts_def by blast+
  with assms(2) 2 show "cwd w' = c \<and> map_of (nodes w') = g (f (map_of (nodes w)))"
    unfolding acts_def by metis
qed

lemma emits_acts:
  assumes "\<forall>s \<in> set ss. emits s"
  shows "\<exists>F. overrides F \<and> acts c (run_all ss) F"
  using assms
proof (induction ss)
  case Nil
  show ?case using overrides_id acts_nil by blast
next
  case (Cons s ss)
  then obtain G where G: "overrides G" "acts c (run_all ss) G" by auto
  from Cons.prems obtain p d where s: "s = write_json p d" by (auto simp: emits_def)
  from acts_cons[OF write_json_acts[of c p d] G(2)] overrides_comp[OF overrides_wj[of c p d] G(1)] s
  show ?case by blast
qed

lemma steel_items_plan:
  "steel_items kind steel = map (\<lambda>(p, d). write_json p d) (steel_plan kind steel)"
  by (simp add: steel_items_def steel_plan_def item_def model_write_json map_concat comp_def)

lemma plan_effect_Nil: "plan_effect c [] m = m"
  by (simp add: plan_effect_def)

lemma plan_effect_Cons: "plan_effect c ((p, d) # pds) m = plan_effect c pds (wj_effect c p d m)"
  by (simp add: plan_effect_def)

lemma plan_acts: "acts c (run_all (map (\<lambda>(p, d). write_json p d) pds)) (plan_effect c pds)"
proof (induction pds)
  case Nil
  show ?case by (simp add: plan_effect_def acts_def)
next
  case (Cons pd pds)
  obtain p d where pd: "pd = (p, d)" by (cases pd)
  have eq: "plan_effect c ((p, d) # pds) = (\<lambda>m. plan_effect c pds (wj_effect c p d m))"
    by (simp add: fun_eq_iff plan_effect_Cons)
  have A: "acts c (run_all (write_json p d # map (\<lambda>(p, d). write_json p d) pds))
             (\<lambda>m. plan_effect c pds (wj_effect c p d m))"
    by (rule acts_cons[OF write_json_acts Cons.IH])
  show ?case unfolding pd eq using A by (simp only: list.map prod.case)
qed

lemma plan_overrides: "overrides (plan_effect c pds)"
proof (induction pds)
  case Nil
  show ?case using overrides_id by (simp add: plan_effect_def)
next
  case (Cons pd pds)
  obtain p d where pd: "pd = (p, d)" by (cases pd)
  have "(\<lambda>m. plan_effect c pds (wj_effect c p d m)) = plan_effect c ((p, d) # pds)"
    by (simp add: fun_eq_iff plan_effect_Cons)
  with overrides_comp[OF overrides_wj[of c p d] Cons.IH] show ?case
    by (simp add: pd)
qed

lemma tidy_plan_subset: "tidy_plan c pds \<Longrightarrow> set pds' \<subseteq> set pds \<Longrightarrow> tidy_plan c pds'"
  unfolding tidy_plan_def by blast

lemma tidy_plan_tail: "tidy_plan c (pd # pds) \<Longrightarrow> tidy_plan c pds"
  by (erule tidy_plan_subset) auto

lemma tidy_plan_files:
  assumes "tidy_plan c pds" and "(k, d) \<in> set (plan_files c pds)"
  shows "k \<notin> plan_dirs c pds" and "(k, d') \<in> set (plan_files c pds) \<Longrightarrow> d' = d"
proof -
  from assms(2) obtain x where x: "x \<in> set pds" "k = key_of c (fst x)" "d = snd x"
    by (auto simp: plan_files_def)
  show "k \<notin> plan_dirs c pds"
  proof
    assume "k \<in> plan_dirs c pds"
    then obtain y where "y \<in> set pds" "k \<in> key_of c ` set (ancestors (os_path_dirname (fst y)))"
      unfolding plan_dirs_def by blast
    with assms(1) x show False unfolding tidy_plan_def by blast
  qed
  assume "(k, d') \<in> set (plan_files c pds)"
  then obtain y where y: "y \<in> set pds" "k = key_of c (fst y)" "d' = snd y"
    by (auto simp: plan_files_def)
  with assms(1) x show "d' = d" unfolding tidy_plan_def by metis
qed

lemma plan_effect_lookup:
  assumes "tidy_plan c pds"
  shows "plan_effect c pds m k =
           (case map_of (plan_files c pds) k of
              Some d \<Rightarrow> Some (File (Json d))
            | None \<Rightarrow> if k \<in> plan_dirs c pds then Some Dir else m k)"
  using assms
proof (induction pds arbitrary: m)
  case Nil
  show ?case by (simp add: plan_effect_def plan_files_def plan_dirs_def)
next
  case (Cons pd pds)
  obtain p d where pd: "pd = (p, d)" by (cases pd)
  note IH = Cons.IH[OF tidy_plan_tail[OF Cons.prems], of "wj_effect c p d m"]
  have dirs: "plan_dirs c ((p, d) # pds) = key_of c ` set (ancestors (os_path_dirname p)) \<union> plan_dirs c pds"
    by (simp add: plan_dirs_def)
  have files: "plan_files c ((p, d) # pds) = (key_of c p, d) # plan_files c pds"
    by (simp add: plan_files_def)
  have tidy: "tidy_plan c ((p, d) # pds)" using Cons.prems by (simp add: pd)
  show ?case
  proof (cases "k = key_of c p")
    case True
    have "(key_of c p, d) \<in> set (plan_files c ((p, d) # pds))" by (simp add: files)
    from tidy_plan_files(1)[OF tidy this]
    have nd: "key_of c p \<notin> key_of c ` set (ancestors (os_path_dirname p))" "key_of c p \<notin> plan_dirs c pds"
      by (simp_all add: dirs)
    show ?thesis
    proof (cases "map_of (plan_files c pds) k")
      case None
      with IH nd True show ?thesis
        by (simp add: pd plan_effect_Cons files dirs wj_effect_def)
    next
      case (Some d')
      then have "(k, d') \<in> set (plan_files c pds)" by (rule map_of_SomeD)
      with True have "(key_of c p, d') \<in> set (plan_files c ((p, d) # pds))" by (simp add: files)
      moreover have "(key_of c p, d) \<in> set (plan_files c ((p, d) # pds))" by (simp add: files)
      ultimately have "d' = d" using tidy_plan_files(2)[OF tidy] by blast
      with IH Some True show ?thesis
        by (simp add: pd plan_effect_Cons files)
    qed
  next
    case False
    with IH show ?thesis
      by (auto simp: pd plan_effect_Cons files dirs wj_effect_def split: option.splits)
  qed
qed

lemma map_of_functional:
  assumes "\<forall>(k, d) \<in> set xs. \<forall>(k', d') \<in> set xs. k = k' \<longrightarrow> d = d'" and "set xs = set ys"
  shows "map_of xs k = map_of ys k"
proof (cases "map_of xs k")
  case None
  then have "k \<notin> fst ` set xs" by (simp add: map_of_eq_None_iff)
  then have "k \<notin> fst ` set ys" using assms(2) by simp
  then have "map_of ys k = None" by (simp add: map_of_eq_None_iff)
  with None show ?thesis by simp
next
  case (Some d)
  then have in_ys: "(k, d) \<in> set ys" using assms(2) map_of_SomeD by fastforce
  then obtain d' where d': "map_of ys k = Some d'"
    by (metis weak_map_of_SomeI)
  then have "(k, d') \<in> set xs" using assms(2) map_of_SomeD by fastforce
  with assms(1) in_ys assms(2) have "d' = d" by fastforce
  with Some d' show ?thesis by simp
qed

lemma plan_effect_perm:
  assumes "tidy_plan c pds" and "set pds = set pds'"
  shows "plan_effect c pds = plan_effect c pds'"
proof -
  have s: "set (plan_files c pds) = set (plan_files c pds')" and d: "plan_dirs c pds = plan_dirs c pds'"
    using assms(2) by (simp_all add: plan_files_def plan_dirs_def)
  have t: "tidy_plan c pds'"
    using assms by (auto intro: tidy_plan_subset)
  have f: "map_of (plan_files c pds) k = map_of (plan_files c pds') k" for k
  proof (rule map_of_functional[OF _ s])
    show "\<forall>(k, d)\<in>set (plan_files c pds). \<forall>(k', d')\<in>set (plan_files c pds). k = k' \<longrightarrow> d = d'"
      using tidy_plan_files(2)[OF assms(1)] by blast
  qed
  show ?thesis
    by (simp add: fun_eq_iff plan_effect_lookup[OF assms(1)] plan_effect_lookup[OF t] f d)
qed

lemma key_of_rel:
  assumes "p \<noteq> []" and "hd p \<noteq> CHR ''/''" and "last p \<noteq> CHR ''/''"
  shows "key_of c p = cwd_prefix c @ p"
proof -
  have "os_path_join c [p] = cwd_prefix c @ p"
    using assms(1,2) by (simp add: cwd_prefix_def)
  moreover have "rstrip_sep (cwd_prefix c @ p) = cwd_prefix c @ p"
    using assms(1,3) by (intro rstrip_sep_id) simp
  ultimately show ?thesis by (simp add: key_of_def)
qed

lemma ingot_ancestors:
  "ancestors ''models/item/metal/ingot'' =
     [''models'', ''models/item'', ''models/item/metal'', ''models/item/metal/ingot'']"
  "ancestors ''models/item/mold/ingot'' =
     [''models'', ''models/item'', ''models/item/mold'', ''models/item/mold/ingot'']"
  by (simp_all add: ancestors_def)

lemma steel_path:
  assumes "kind = ''metal'' \<or> kind = ''mold''" and "type = ''high_carbon'' \<or> type = ''weak''"
  shows "os_path_join ''models'' [''item'', kind, ''ingot'', type @ ''_'' @ metal] @ ''.json''
           = ''models/item/'' @ kind @ ''/ingot/'' @ type @ ''_'' @ metal @ ''.json''"
  using assms by auto

lemma steel_dirname:
  assumes "kind = ''metal'' \<or> kind = ''mold''" and "type = ''high_carbon'' \<or> type = ''weak''"
    and "CHR ''/'' \<notin> set metal"
  shows "os_path_dirname (''models/item/'' @ kind @ ''/ingot/'' @ type @ ''_'' @ metal @ ''.json'')
           = ''models/item/'' @ kind @ ''/ingot''"
proof -
  have "CHR ''/'' \<notin> set (type @ ''_'' @ metal @ ''.json'')" using assms(2,3) by auto
  from dirname_join[OF this, of "''models/item/'' @ kind @ ''/ingot''"] assms(1)
  show ?thesis by auto
qed

lemma steel_plan_members:
  "x \<in> set (steel_plan kind steel) \<longleftrightarrow>
     (\<exists>metal \<in> set steel. \<exists>type \<in> {''high_carbon'', ''weak''}.
        x = (os_path_join ''models'' [''item'', kind, ''ingot'', type @ ''_'' @ metal] @ ''.json'',
             model_descriptor ''item/generated'' (item_textures [''tfc:items/'' @ kind @ ''/ingot/'' @ metal])))"
  by (auto simp: steel_plan_def)

lemma steel_plan_set: "set steel = set steel' \<Longrightarrow> set (steel_plan kind steel) = set (steel_plan kind steel')"
  by (auto simp: steel_plan_members)

lemma steel_entry:
  assumes k: "kind = ''metal'' \<or> kind = ''mold''" and s: "\<forall>metal \<in> set steel. CHR ''/'' \<notin> set metal"
    and x: "x \<in> set (steel_plan kind steel)"
  shows "\<exists>metal type. (type = ''high_carbon'' \<or> type = ''weak'')
    \<and> snd x = model_descriptor ''item/generated'' (item_textures [''tfc:items/'' @ kind @ ''/ingot/'' @ metal])
    \<and> os_path_dirname (fst x) = ''models/item/'' @ kind @ ''/ingot''
    \<and> key_of c (fst x) = cwd_prefix c @ ''models/item/'' @ kind @ ''/ingot/'' @ type @ ''_'' @ metal @ ''.json''"
proof -
  from x obtain metal type where m: "metal \<in> set steel" and t: "type = ''high_carbon'' \<or> type = ''weak''"
    and e: "x = (os_path_join ''models'' [''item'', kind, ''ingot'', type @ ''_'' @ metal] @ ''.json'',
             model_descriptor ''item/generated'' (item_textures [''tfc:items/'' @ kind @ ''/ingot/'' @ metal]))"
    unfolding steel_plan_members by blast
  have p: "fst x = ''models/item/'' @ kind @ ''/ingot/'' @ type @ ''_'' @ metal @ ''.json''"
    using steel_path[OF k t, of metal] e by simp
  have d: "os_path_dirname (fst x) = ''models/item/'' @ kind @ ''/ingot''"
    using steel_dirname[OF k t, of metal] s m p by simp
  have "key_of c (fst x) = cwd_prefix c @ fst x"
    by (rule key_of_rel) (simp_all add: p)
  with p have ky: "key_of c (fst x) = cwd_prefix c @ ''models/item/'' @ kind @ ''/ingot/'' @ type @ ''_'' @ metal @ ''.json''"
    by simp
  have sn: "snd x = model_descriptor ''item/generated'' (item_textures [''tfc:items/'' @ kind @ ''/ingot/'' @ metal])"
    by (simp add: e)
  from t sn d ky show ?thesis by blast
qed

lemma ingot_ancestor_keys:
  assumes "kind = ''metal'' \<or> kind = ''mold''"
  shows "key_of c ` set (ancestors (''models/item/'' @ kind @ ''/ingot''))
      = {cwd_prefix c @ ''models'', cwd_prefix c @ ''models/item'', cwd_prefix c @ ''models/item/'' @ kind,
         cwd_prefix c @ ''models/item/'' @ kind @ ''/ingot''}"
proof -
  have 1: "key_of c ''models'' = cwd_prefix c @ ''models''" by (rule key_of_rel) simp_all
  have 2: "key_of c ''models/item'' = cwd_prefix c @ ''models/item''" by (rule key_of_rel) simp_all
  have 3: "key_of c ''models/item/metal'' = cwd_prefix c @ ''models/item/metal''" by (rule key_of_rel) simp_all
  have 4: "key_of c ''models/item/metal/ingot'' = cwd_prefix c @ ''models/item/metal/ingot''" by (rule key_of_rel) simp_all
  have 5: "key_of c ''models/item/mold'' = cwd_prefix c @ ''models/item/mold''" by (rule key_of_rel) simp_all
  have 6: "key_of c ''models/item/mold/ingot'' = cwd_prefix c @ ''models/item/mold/ingot''" by (rule key_of_rel) simp_all
  from assms show ?thesis
  proof
    assume "kind = ''metal''"
    then show ?thesis using ingot_ancestors(1) 1 2 3 4 by simp
  next
    assume "kind = ''mold''"
    then show ?thesis using ingot_ancestors(2) 1 2 5 6 by simp
  qed
qed

lemma steel_tidy:
  assumes k: "kind = ''metal'' \<or> kind = ''mold''" and s: "\<forall>metal \<in> set steel. CHR ''/'' \<notin> set metal"
  shows "tidy_plan c (steel_plan kind steel)"
  unfolding tidy_plan_def
proof (intro ballI conjI impI)
  fix x y assume x: "x \<in> set (steel_plan kind steel)" and y: "y \<in> set (steel_plan kind steel)"
  from steel_entry[OF k s x, of c] obtain m1 t1 where
    1: "t1 = ''high_carbon'' \<or> t1 = ''weak''"
       "snd x = model_descriptor ''item/generated'' (item_textures [''tfc:items/'' @ kind @ ''/ingot/'' @ m1])"
       "key_of c (fst x) = cwd_prefix c @ ''models/item/'' @ kind @ ''/ingot/'' @ t1 @ ''_'' @ m1 @ ''.json''"
    by (elim exE conjE)
  from steel_entry[OF k s y, of c] obtain m2 t2 where
    2: "t2 = ''high_carbon'' \<or> t2 = ''weak''"
       "snd y = model_descriptor ''item/generated'' (item_textures [''tfc:items/'' @ kind @ ''/ingot/'' @ m2])"
       "os_path_dirname (fst y) = ''models/item/'' @ kind @ ''/ingot''"
       "key_of c (fst y) = cwd_prefix c @ ''models/item/'' @ kind @ ''/ingot/'' @ t2 @ ''_'' @ m2 @ ''.json''"
    by (elim exE conjE)
  show "key_of c (fst x) \<notin> key_of c ` set (ancestors (os_path_dirname (fst y)))"
    unfolding 2(3) ingot_ancestor_keys[OF k] 1(3) by simp
  assume "key_of c (fst x) = key_of c (fst y)"
  then have "t1 @ ''_'' @ m1 @ ''.json'' = t2 @ ''_'' @ m2 @ ''.json''"
    unfolding 1(3) 2(4) by simp
  with 1(1) 2(1) have "m1 = m2" by auto
  with 1(2) 2(2) show "snd x = snd y" by simp
qed

lemma steel_order_list: "steel_order steel_list"
  by (simp add: steel_order_def steel_list_def STEEL_def)

lemma steel_no_sep: "steel_order steel \<Longrightarrow> \<forall>metal \<in> set steel. CHR ''/'' \<notin> set metal"
  by (auto simp: steel_order_def STEEL_def)

lemma steel_acts:
  assumes "kind = ''metal'' \<or> kind = ''mold''" and "steel_order steel"
  shows "acts c (run_all (steel_items kind steel)) (plan_effect c (steel_plan kind steel_list))"
proof -
  have "set steel = set steel_list"
    using assms(2) steel_order_list by (simp add: steel_order_def)
  from steel_plan_set[OF this]
  have "plan_effect c (steel_plan kind steel) = plan_effect c (steel_plan kind steel_list)"
    by (intro plan_effect_perm steel_tidy[OF assms(1) steel_no_sep[OF assms(2)]])
  with plan_acts[of c "steel_plan kind steel"] show ?thesis
    by (simp add: steel_items_plan)
qed

lemma steady_const: "\<forall>st \<in> set ss. emits st \<Longrightarrow> steady c (\<lambda>s. ss)"
  unfolding steady_def using emits_acts[of ss c] by blast

lemma steady_steel: "kind = ''metal'' \<or> kind = ''mold'' \<Longrightarrow> steady c (\<lambda>s. steel_items kind s)"
  unfolding steady_def using steel_acts[of kind _ c] plan_overrides[of c "steel_plan kind steel_list"] by blast

lemma steady_append:
  assumes "steady c f" and "steady c g"
  shows "steady c (\<lambda>s. f s @ g s)"
proof -
  from assms(1) obtain F where F: "overrides F" "\<And>s. steel_order s \<Longrightarrow> acts c (run_all (f s)) F"
    unfolding steady_def by blast
  from assms(2) obtain G where G: "overrides G" "\<And>s. steel_order s \<Longrightarrow> acts c (run_all (g s)) G"
    unfolding steady_def by blast
  show ?thesis unfolding steady_def
    using overrides_comp[OF F(1) G(1)] acts_append[OF F(2) G(2)] by blast
qed

lemma steady_metal_items: "steady c metal_items"
proof -
  have "steady c (\<lambda>s. concat (map (\<lambda>(item_type, tool_item).
         concat (map (\<lambda>(metal, tool_metal).
             if tool_item \<and> \<not> tool_metal then []
             else [item [''metal'', item_type, metal]
                     [''tfc:items/metal/'' @ str_replace ''unfinished_'' [] item_type @ ''/'' @ metal]
                     (metal_parent item_type)])
           METAL_TYPES))
       METAL_ITEMS)
     @ steel_items ''metal'' s
     @ [item [''metal'', ''ingot'', ''unknown''] [''tfc:items/metal/ingot/'' @ ''unknown''] ''item/generated''])"
    by (intro steady_append steady_steel steady_const) (auto intro: emits_intros split: if_splits)
  then show ?thesis by (simp add: metal_items_def[abs_def])
qed

lemma steady_mold_items: "steady c mold_items"
proof -
  have "steady c (\<lambda>s. concat (map (\<lambda>metal.
         concat (map (\<lambda>item_type.
             if item_type \<notin> set heads then []
             else [item [''mold'', item_type, metal]
                     [''tfc:items/mold/'' @ metal @ ''/'' @ split_head (CHR ''_'') item_type]
                     ''item/generated''])
           (map fst METAL_ITEMS)))
       [''empty'', ''unfired'', ''copper'', ''bronze'', ''black_bronze'', ''bismuth_bronze''])
     @ map (\<lambda>metal. item [''mold'', ''ingot'', metal] [''tfc:items/mold/ingot/'' @ metal] ''item/generated'')
         (map fst METAL_TYPES @ [''unfired'', ''empty''])
     @ [item [''mold'', ''ingot'', ''unknown''] [''tfc:items/mold/ingot/unknown''] ''item/generated'']
     @ steel_items ''mold'' s)"
    by (intro steady_append steady_steel steady_const) (auto intro: emits_intros split: if_splits)
  then show ?thesis by (simp add: mold_items_def[abs_def])
qed

lemma steady_driver: "steady c driver"
proof -
  have "steady c (\<lambda>steel. fluid_blocks
     @ concat (map rock_blocks ROCK_TYPES)
     @ concat (map wood_blocks WOOD_TYPES)
     @ ore_items @ rock_items @ door_items @ gem_items
     @ metal_items steel
     @ lumber_items @ rock_tool_items @ powder_items @ goldpan_items
     @ mold_items steel
     @ ceramics_items @ flat_items)"
    using emits_fluid_blocks emits_rock_blocks emits_wood_blocks emits_items
    by (intro steady_append steady_metal_items steady_mold_items steady_const) auto
  then show ?thesis by (simp add: driver_def[abs_def])
qed

lemma zipfolder_tree:
  assumes "cwd w = []" and "zipfolder (archive_name now) t w = Inr w'"
  shows "cwd w' = [] \<and> (\<forall>k. k \<noteq> archive_name now \<longrightarrow> map_of (nodes w') k = map_of (nodes w) k)"
proof -
  from assms(2) obtain c where o: "open_write (archive_name now) c w = Inr w'"
    by (auto simp: zipfolder_def Let_def)
  from open_write_Inr[OF o] assms(1) show ?thesis
    by (auto simp: map_of_dict_set path_key_start archive_name_key)
qed

lemma archive_step_tree:
  assumes c: "cwd w = []" and r: "archive_step now w = Inr w'"
  shows "cwd w' = [] \<and> (\<forall>k. k \<noteq> archive_name now \<longrightarrow> map_of (nodes w') k = archived_tree w k)"
proof (cases "os_path_isdir ''assets_backups'' w")
  case True
  with c have "map_of (nodes w) ''assets_backups'' = Some Dir"
    by (simp add: os_path_isdir_def path_key_start rstrip_sep_def)
  then have a: "archived_tree w = map_of (nodes w)" by (simp add: archived_tree_def)
  from r True have "zipfolder (archive_name now) ''src/main/resources/assets/tfc'' w = Inr w'"
    by (simp add: archive_step_def archive_name_def)
  from zipfolder_tree[OF c this] a show ?thesis by simp
next
  case False
  with r obtain w1 w2 where m: "os_mkdir ''assets_backups'' w = Inr w1"
    and g: "open_write ''assets_backups/.gitignore'' (Text gitignore_lines) w1 = Inr w2"
    and z: "zipfolder (archive_name now) ''src/main/resources/assets/tfc'' w2 = Inr w'"
    by (auto simp: archive_step_def archive_name_def split: sum.splits)
  from os_mkdir_Inr[OF m] c have w1: "cwd w1 = []" "map_of (nodes w) ''assets_backups'' = None"
    "map_of (nodes w1) = (map_of (nodes w))(''assets_backups'' \<mapsto> Dir)"
    by (auto simp: path_key_start rstrip_sep_def fun_eq_iff map_add_def split: option.splits)
  from open_write_Inr[OF g] w1(1) have w2: "cwd w2 = []"
    "map_of (nodes w2) = (map_of (nodes w1))(''assets_backups/.gitignore'' \<mapsto> File (Text gitignore_lines))"
    by (auto simp: path_key_start rstrip_sep_def map_of_dict_set)
  from w1 w2 have "map_of (nodes w2) = archived_tree w" by (simp add: archived_tree_def)
  with zipfolder_tree[OF w2(1) z] show ?thesis by simp
qed

lemma os_chdir_tree:
  assumes "cwd w = []" and "os_chdir p w = Inr w'"
  shows "cwd w' = p \<and> nodes w' = nodes w"
  using assms by (auto simp: os_chdir_def split: if_splits)

lemma generate_tree:
  assumes G: "overrides G" "\<And>s. steel_order s \<Longrightarrow> acts ''src/main/resources/assets/tfc/'' (run_all (driver s)) G"
    and s: "steel_order steel" and c: "cwd w = []" and r: "generate steel now w = Inr w'"
  shows "\<forall>k. k \<noteq> archive_name now \<longrightarrow> map_of (nodes w') k = G (archived_tree w) k"
proof (intro allI impI)
  fix k assume k: "k \<noteq> archive_name now"
  from r obtain w1 w2 where 1: "archive_step now w = Inr w1"
    and 2: "os_chdir ''src/main/resources/assets/tfc/'' w1 = Inr w2"
    and 3: "run_all (driver steel) w2 = Inr w'"
    by (auto simp: generate_def split: sum.splits)
  from archive_step_tree[OF c 1] k have a: "cwd w1 = []" "map_of (nodes w1) k = archived_tree w k" by auto
  from os_chdir_tree[OF a(1) 2] have b: "cwd w2 = ''src/main/resources/assets/tfc/''" "nodes w2 = nodes w1" by auto
  from G(2)[OF s] b(1) 3 have "map_of (nodes w') = G (map_of (nodes w2))"
    unfolding acts_def by blast
  with overrides_agree[OF G(1), of "map_of (nodes w1)" k "archived_tree w"] a(2) b(2)
  show "map_of (nodes w') k = G (archived_tree w) k" by simp
qed

section \<open>Runs that return\<close>

lemma strict_prefix_shorter: "prefix y s \<Longrightarrow> y \<noteq> s \<Longrightarrow> length y < length s"
  by (auto simp: prefix_def)

lemma filter_prefixes_last:
  assumes "s \<noteq> []" and "CHR ''/'' \<notin> set s"
  shows "filter (\<lambda>y. y \<noteq> [] \<and> last y \<noteq> CHR ''/'' \<and> (y = s \<or> s ! length y = CHR ''/'')) (prefixes s) = [s]"
proof -
  have sp: "prefixes s = butlast (prefixes s) @ [s]"
    using append_butlast_last_id[of "prefixes s"] by simp
  have "distinct (butlast (prefixes s) @ [s])" using distinct_prefixes[of s] sp by simp
  then have notin: "s \<notin> set (butlast (prefixes s))" by simp
  have strict: "y \<noteq> s \<and> prefix y s" if "y \<in> set (butlast (prefixes s))" for y
    using that notin in_set_butlastD[OF that] by auto
  have 1: "filter (\<lambda>y. y \<noteq> [] \<and> last y \<noteq> CHR ''/'' \<and> (y = s \<or> s ! length y = CHR ''/'')) (butlast (prefixes s)) = []"
  proof (rule filter_False, intro ballI)
    fix y assume "y \<in> set (butlast (prefixes s))"
    from strict[OF this] have "y \<noteq> s" "prefix y s" by auto
    then have "length y < length s" by (simp add: strict_prefix_shorter)
    then have "s ! length y \<in> set s" by simp
    with assms(2) have "s ! length y \<noteq> CHR ''/''" by metis
    with \<open>y \<noteq> s\<close> show "\<not> (y \<noteq> [] \<and> last y \<noteq> CHR ''/'' \<and> (y = s \<or> s ! length y = CHR ''/''))" by simp
  qed
  have 2: "last s \<noteq> CHR ''/''" using assms last_in_set by metis
  have "filter (\<lambda>y. y \<noteq> [] \<and> last y \<noteq> CHR ''/'' \<and> (y = s \<or> s ! length y = CHR ''/''))
          (butlast (prefixes s) @ [s]) = [s]"
    using 1 2 assms(1) by simp
  with sp show ?thesis by simp
qed

lemma ancestors_single: "s \<noteq> [] \<Longrightarrow> CHR ''/'' \<notin> set s \<Longrightarrow> ancestors s = [s]"
  unfolding ancestors_def by (rule filter_prefixes_last)

lemma ancestors_extend:
  assumes d: "d \<noteq> []" "last d \<noteq> CHR ''/''" and s: "s \<noteq> []" "CHR ''/'' \<notin> set s"
  shows "ancestors (d @ CHR ''/'' # s) = ancestors d @ [d @ CHR ''/'' # s]"
proof -
  let ?name = "d @ CHR ''/'' # s"
  let ?P = "\<lambda>name a. a \<noteq> [] \<and> last a \<noteq> CHR ''/'' \<and> (a = name \<or> name ! length a = CHR ''/'')"
  have pre: "prefixes ?name = prefixes d @ map (\<lambda>y. d @ CHR ''/'' # y) (prefixes s)"
    by (simp add: prefixes_append[of d] comp_def)
  have first: "filter (?P ?name) (prefixes d) = filter (?P d) (prefixes d)"
  proof (rule filter_cong[OF refl])
    fix a assume "a \<in> set (prefixes d)"
    then have p: "prefix a d" by simp
    show "?P ?name a = ?P d a"
    proof (cases "a = d")
      case True
      then show ?thesis by simp
    next
      case False
      with p have "length a < length d" by (simp add: strict_prefix_shorter)
      then have "?name ! length a = d ! length a" by (simp add: nth_append)
      moreover from \<open>length a < length d\<close> have "a \<noteq> ?name" by auto
      ultimately show ?thesis using False by simp
    qed
  qed
  have second: "filter (?P ?name) (map (\<lambda>y. d @ CHR ''/'' # y) (prefixes s)) = [?name]"
  proof -
    have "filter (?P ?name) (map (\<lambda>y. d @ CHR ''/'' # y) (prefixes s))
            = map (\<lambda>y. d @ CHR ''/'' # y) (filter (\<lambda>y. y \<noteq> [] \<and> last y \<noteq> CHR ''/'' \<and> (y = s \<or> s ! length y = CHR ''/'')) (prefixes s))"
      unfolding filter_map comp_def
      by (rule arg_cong[where f = "map (\<lambda>y. d @ CHR ''/'' # y)"], rule filter_cong[OF refl])
         (auto simp: nth_append)
    then show ?thesis by (simp add: filter_prefixes_last[OF s])
  qed
  show ?thesis
    unfolding ancestors_def[of ?name] pre filter_append first second
    by (simp add: ancestors_def)
qed

lemma same_outside_refl: "same_outside c w w"
  by (simp add: same_outside_def)

lemma same_outside_trans: "same_outside c w w1 \<Longrightarrow> same_outside c w1 w2 \<Longrightarrow> same_outside c w w2"
  by (simp add: same_outside_def)

lemma rel_dir_Nil: "rel_dir stem [] = stem"
  by (simp add: rel_dir_def)

lemma rel_dir_snoc: "rel_dir stem (segs @ [s]) = rel_dir stem segs @ CHR ''/'' # s"
  by (simp add: rel_dir_def)

lemma rel_dir_Cons: "rel_dir stem (s # segs) = rel_dir (stem @ CHR ''/'' # s) segs"
  by (simp add: rel_dir_def)

lemma rel_dir_props:
  assumes "nice stem" and "list_all nice segs"
  shows "rel_dir stem segs \<noteq> []" "hd (rel_dir stem segs) \<noteq> CHR ''/''" "last (rel_dir stem segs) \<noteq> CHR ''/''"
    "CHR ''.'' \<notin> set (rel_dir stem segs)"
proof -
  from assms(1) have r: "stem \<noteq> []" "hd stem \<in> set stem" "last stem \<in> set stem" "CHR ''/'' \<notin> set stem" "CHR ''.'' \<notin> set stem"
    by (auto simp: nice_def)
  then have hr: "hd stem \<noteq> CHR ''/''" and lr: "last stem \<noteq> CHR ''/''" by metis+
  show "rel_dir stem segs \<noteq> []" using r by (simp add: rel_dir_def)
  show "hd (rel_dir stem segs) \<noteq> CHR ''/''" using r(1) hr by (simp add: rel_dir_def)
  show "last (rel_dir stem segs) \<noteq> CHR ''/''"
  proof (cases segs rule: rev_cases)
    case Nil
    with lr show ?thesis by (simp add: rel_dir_def)
  next
    case (snoc ss s)
    with assms(2) have "s \<noteq> []" "last s \<in> set s" "CHR ''/'' \<notin> set s" by (auto simp: nice_def)
    then have "last s \<noteq> CHR ''/''" by metis
    with \<open>s \<noteq> []\<close> show ?thesis by (simp add: snoc rel_dir_snoc)
  qed
  show "CHR ''.'' \<notin> set (rel_dir stem segs)"
    using r assms(2) by (auto simp: rel_dir_def list_all_iff nice_def)
qed

lemma os_path_join_rel_aux:
  assumes "stem \<noteq> []" and "last stem \<noteq> CHR ''/''" and "list_all nice parts"
  shows "os_path_join stem parts = rel_dir stem parts"
  using assms
proof (induction parts arbitrary: stem)
  case Nil
  then show ?case by (simp add: rel_dir_def)
next
  case (Cons b parts)
  from Cons.prems(3) have nb: "nice b" and ps: "list_all nice parts" by simp_all
  from nb have b: "b \<noteq> []" "hd b \<in> set b" "last b \<in> set b" "CHR ''/'' \<notin> set b"
    by (auto simp: nice_def)
  from b have hb: "hd b \<noteq> CHR ''/''" and lb: "last b \<noteq> CHR ''/''" by metis+
  have "os_path_join stem (b # parts) = os_path_join (stem @ CHR ''/'' # b) parts"
    using Cons.prems(1,2) b(1) hb by simp
  also have "\<dots> = rel_dir (stem @ CHR ''/'' # b) parts"
    using b(1) lb ps by (intro Cons.IH) simp_all
  finally show ?case by (simp add: rel_dir_Cons)
qed

lemma os_path_join_rel: "nice stem \<Longrightarrow> list_all nice parts \<Longrightarrow> os_path_join stem parts = rel_dir stem parts"
proof -
  assume r: "nice stem" and p: "list_all nice parts"
  from r have "stem \<noteq> []" "last stem \<in> set stem" "CHR ''/'' \<notin> set stem" by (auto simp: nice_def)
  then have "stem \<noteq> []" "last stem \<noteq> CHR ''/''" by metis+
  from os_path_join_rel_aux[OF this p] show ?thesis .
qed

lemma ancestors_rel_dir_snoc:
  assumes "nice stem" and "list_all nice segs" and "nice s"
  shows "ancestors (rel_dir stem (segs @ [s])) = ancestors (rel_dir stem segs) @ [rel_dir stem (segs @ [s])]"
  using rel_dir_props(1,3)[OF assms(1,2)] assms(3)
  by (simp add: rel_dir_snoc ancestors_extend nice_def)

lemma ancestors_rel_dir_Nil: "nice stem \<Longrightarrow> ancestors (rel_dir stem []) = [stem]"
  by (simp add: rel_dir_Nil ancestors_single nice_def)

lemma makedirs_each_append:
  "makedirs_each xs w = Inr w1 \<Longrightarrow> makedirs_each (xs @ ys) w = makedirs_each ys w1"
  by (induction xs arbitrary: w) (auto split: option.splits node.splits sum.splits)

lemma settled_key:
  assumes "settled c w" and "a \<noteq> []" and "hd a \<noteq> CHR ''/''" and "last a \<noteq> CHR ''/''"
  shows "path_key w a = c @ CHR ''/'' # a"
  using assms key_of_rel[of a "c @ ''/''"] by (simp add: settled_def path_key_key_of cwd_prefix_def)

lemma map_of_snoc: "map_of (xs @ [(k, v)]) k' = (case map_of xs k' of None \<Rightarrow> (if k' = k then Some v else None) | Some x \<Rightarrow> Some x)"
  by (simp add: map_add_def split: option.splits)

lemma mkdir_step:
  assumes s: "settled c w"
    and a: "a \<noteq> []" "hd a \<noteq> CHR ''/''" "last a \<noteq> CHR ''/''" "CHR ''.'' \<notin> set a"
    and p: "map_of (nodes w) (os_path_dirname (c @ CHR ''/'' # a)) = Some Dir"
  shows "\<exists>w'. makedirs_each [a] w = Inr w' \<and> settled c w' \<and> map_of (nodes w') (c @ CHR ''/'' # a) = Some Dir
           \<and> same_outside c w w'"
proof -
  note k = settled_key[OF s a(1,2,3)]
  show ?thesis
  proof (cases "map_of (nodes w) (c @ CHR ''/'' # a)")
    case None
    let ?w' = "w\<lparr>nodes := nodes w @ [(c @ CHR ''/'' # a, Dir)], events := events w @ [Mkdir (c @ CHR ''/'' # a)]\<rparr>"
    have m: "os_mkdir a w = Inr ?w'"
      using None a(1) p by (simp add: os_mkdir_def k is_dir_def Let_def)
    have "settled c ?w'"
      using s a(4) None unfolding settled_def by (auto simp: map_add_def split: option.splits if_splits)
    moreover have "map_of (nodes ?w') (c @ CHR ''/'' # a) = Some Dir"
      using None by (simp add: map_add_def)
    moreover have "same_outside c w ?w'"
      unfolding same_outside_def by (auto simp: map_add_def split: option.splits)
    ultimately show ?thesis using m None by (simp add: k)
  next
    case (Some n)
    with s a(4) have "n = Dir" unfolding settled_def by blast
    with Some s show ?thesis by (simp add: k same_outside_refl)
  qed
qed

lemma makedirs_rel:
  assumes c: "c \<noteq> []" "last c \<noteq> CHR ''/''" and s: "settled c w" and st: "nice stem" and sg: "list_all nice segs"
  shows "\<exists>w'. makedirs_each (ancestors (rel_dir stem segs)) w = Inr w' \<and> settled c w'
           \<and> map_of (nodes w') (c @ CHR ''/'' # rel_dir stem segs) = Some Dir \<and> same_outside c w w'"
  using sg
proof (induction segs rule: rev_induct)
  case Nil
  from st have r: "stem \<noteq> []" "hd stem \<in> set stem" "last stem \<in> set stem" "CHR ''/'' \<notin> set stem" "CHR ''.'' \<notin> set stem"
    by (auto simp: nice_def)
  then have hl: "hd stem \<noteq> CHR ''/''" "last stem \<noteq> CHR ''/''" by metis+
  have "os_path_dirname (c @ CHR ''/'' # stem) = c" using dirname_join[OF r(4) c] .
  with s have "map_of (nodes w) (os_path_dirname (c @ CHR ''/'' # stem)) = Some Dir"
    by (simp add: settled_def)
  from mkdir_step[OF s r(1) hl r(5) this] show ?case
    unfolding rel_dir_Nil ancestors_rel_dir_Nil[OF st, unfolded rel_dir_Nil] by blast
next
  case (snoc x segs)
  from snoc.prems have nx: "nice x" and sg': "list_all nice segs" by simp_all
  from snoc.IH[OF sg'] obtain w1 where w1: "makedirs_each (ancestors (rel_dir stem segs)) w = Inr w1"
    "settled c w1" "map_of (nodes w1) (c @ CHR ''/'' # rel_dir stem segs) = Some Dir" "same_outside c w w1"
    by blast
  let ?a = "rel_dir stem (segs @ [x])"
  note pr = rel_dir_props[OF st snoc.prems]
  note pr' = rel_dir_props[OF st sg']
  from nx have x: "CHR ''/'' \<notin> set x" by (simp add: nice_def)
  have "os_path_dirname (c @ CHR ''/'' # ?a) = c @ CHR ''/'' # rel_dir stem segs"
    using dirname_join[OF x, of "c @ CHR ''/'' # rel_dir stem segs"] pr'(1,3) by (simp add: rel_dir_snoc)
  with w1(3) have "map_of (nodes w1) (os_path_dirname (c @ CHR ''/'' # ?a)) = Some Dir" by simp
  from mkdir_step[OF w1(2) pr this] obtain w' where w': "makedirs_each [?a] w1 = Inr w'" "settled c w'"
    "map_of (nodes w') (c @ CHR ''/'' # ?a) = Some Dir" "same_outside c w1 w'" by blast
  have "makedirs_each (ancestors ?a) w = Inr w'"
    using makedirs_each_append[OF w1(1), of "[?a]"] w'(1)
    by (simp add: ancestors_rel_dir_snoc[OF st sg' nx])
  with w'(2,3) same_outside_trans[OF w1(4) w'(4)] show ?case by blast
qed

lemma emits_nicely_runs:
  assumes c: "c \<noteq> []" "last c \<noteq> CHR ''/''" and s: "settled c w" and e: "emits_nicely st"
  shows "\<exists>w'. st w = Inr w' \<and> settled c w' \<and> same_outside c w w'"
proof -
  from e obtain stem parts d where st: "nice stem" and ne: "parts \<noteq> []" and ps: "list_all nice parts"
    and eq: "st = write_json (os_path_join stem parts @ ''.json'') d"
    unfolding emits_nicely_def by blast
  from ne obtain segs x where parts: "parts = segs @ [x]" by (cases parts rule: rev_cases) auto
  with ps have nx: "nice x" and sg: "list_all nice segs" by simp_all
  let ?dir = "rel_dir stem segs"
  let ?p = "?dir @ CHR ''/'' # x @ ''.json''"
  have p: "os_path_join stem parts @ ''.json'' = ?p"
    by (simp add: os_path_join_rel[OF st ps, unfolded parts] parts rel_dir_snoc)
  note pr = rel_dir_props[OF st sg]
  from nx have x: "x \<noteq> []" "CHR ''/'' \<notin> set x" by (simp_all add: nice_def)
  then have xj: "CHR ''/'' \<notin> set (x @ ''.json'')" by simp
  have dn: "os_path_dirname ?p = ?dir" using dirname_join[OF xj pr(1,3)] .
  from makedirs_rel[OF c s st sg] obtain w1 where w1: "makedirs_each (ancestors ?dir) w = Inr w1"
    "settled c w1" "map_of (nodes w1) (c @ CHR ''/'' # ?dir) = Some Dir" "same_outside c w w1" by blast
  have md: "os_makedirs (os_path_dirname ?p) w = Inr w1"
    using w1(1) pr(1) by (simp add: os_makedirs_def dn)
  have key: "path_key w1 ?p = c @ CHR ''/'' # ?p"
    by (rule settled_key[OF w1(2)]) (use pr in simp_all)
  have notdir: "map_of (nodes w1) (c @ CHR ''/'' # ?p) \<noteq> Some Dir"
  proof
    assume "map_of (nodes w1) (c @ CHR ''/'' # ?p) = Some Dir"
    with w1(2) have "CHR ''.'' \<notin> set ?p" unfolding settled_def by blast
    then show False by simp
  qed
  have "os_path_dirname (c @ CHR ''/'' # ?p) = c @ CHR ''/'' # ?dir"
    using dirname_join[OF xj, of "c @ CHR ''/'' # ?dir"] pr(1,3) by simp
  with w1(3) have par: "is_dir w1 (os_path_dirname (c @ CHR ''/'' # ?p))" by (simp add: is_dir_def)
  let ?w' = "w1\<lparr>nodes := dict_set (c @ CHR ''/'' # ?p) (File (Json d)) (nodes w1),
                 events := events w1 @ [Write (c @ CHR ''/'' # ?p) (Json d)]\<rparr>"
  have ow: "open_write ?p (Json d) w1 = Inr ?w'"
    using notdir par by (simp add: open_write_def key Let_def)
  have cne: "c \<noteq> c @ CHR ''/'' # ?p" by simp
  have "settled c ?w'"
    using w1(2) cne unfolding settled_def by (auto simp: map_of_dict_set)
  moreover have "same_outside c w1 ?w'"
    unfolding same_outside_def by (auto simp: map_of_dict_set)
  ultimately have "settled c ?w'" "same_outside c w ?w'"
    using same_outside_trans[OF w1(4)] by blast+
  moreover have "st w = Inr ?w'"
    unfolding eq p write_json_def using md ow by simp
  ultimately show ?thesis by blast
qed

lemma run_all_nicely:
  assumes c: "c \<noteq> []" "last c \<noteq> CHR ''/''" and s: "settled c w" and e: "\<forall>st \<in> set ss. emits_nicely st"
  shows "\<exists>w'. run_all ss w = Inr w' \<and> settled c w' \<and> same_outside c w w'"
  using s e
proof (induction ss arbitrary: w)
  case Nil
  then show ?case by (simp add: same_outside_refl)
next
  case (Cons st ss)
  from Cons.prems(2) have e1: "emits_nicely st" and e2: "\<forall>st \<in> set ss. emits_nicely st" by simp_all
  from emits_nicely_runs[OF c Cons.prems(1) e1] obtain w1 where w1: "st w = Inr w1" "settled c w1" "same_outside c w w1"
    by blast
  from Cons.IH[OF w1(2) e2] obtain w' where w': "run_all ss w1 = Inr w'" "settled c w'" "same_outside c w1 w'"
    by blast
  from w1 w' same_outside_trans[OF w1(3) w'(3)] show ?case by auto
qed

lemma nicely_blockstate: "parts \<noteq> [] \<Longrightarrow> list_all nice parts \<Longrightarrow> emits_nicely (blockstate parts m t v)"
  unfolding emits_nicely_def blockstate_write_json
  by (rule exI[of _ "''blockstates''"], rule exI[of _ parts]) (auto simp: nice_def)

lemma nicely_model: "parts \<noteq> [] \<Longrightarrow> list_all nice parts \<Longrightarrow> emits_nicely (model parts parent ts)"
  unfolding emits_nicely_def model_write_json
  by (rule exI[of _ "''models''"], rule exI[of _ parts]) (auto simp: nice_def)

lemma nicely_cube_all: "parts \<noteq> [] \<Longrightarrow> list_all nice parts \<Longrightarrow> emits_nicely (cube_all parts tex v m)"
  by (simp add: cube_all_def nicely_blockstate)

lemma nicely_item: "list_all nice parts \<Longrightarrow> emits_nicely (item parts layers parent)"
  unfolding item_def by (rule nicely_model) (simp_all add: nice_def)

lemma nice_tables:
  "list_all nice ROCK_TYPES" "list_all nice ROCK_CATEGORIES" "list_all nice FULLBLOCK_TYPES"
  "list_all nice GRASS_TYPES" "list_all nice (map fst ORE_TYPES)" "list_all nice POWDERS"
  "list_all nice WOOD_TYPES" "list_all nice GEM_TYPES" "list_all nice GEM_GRADES"
  "list_all nice (map fst METAL_TYPES)" "list_all nice (map fst METAL_ITEMS)"
  "list_all nice (map fst FLUIDS)"
  by (simp_all add: nice_def ROCK_TYPES_def ROCK_CATEGORIES_def FULLBLOCK_TYPES_def GRASS_TYPES_def
      ORE_TYPES_def POWDERS_def WOOD_TYPES_def GEM_TYPES_def GEM_GRADES_def METAL_TYPES_def
      METAL_ITEMS_def FLUIDS_def)

lemma nice_in:
  "x \<in> set ROCK_TYPES \<Longrightarrow> nice x" "x \<in> set ROCK_CATEGORIES \<Longrightarrow> nice x" "x \<in> set FULLBLOCK_TYPES \<Longrightarrow> nice x"
  "x \<in> set GRASS_TYPES \<Longrightarrow> nice x" "(x, b) \<in> set ORE_TYPES \<Longrightarrow> nice x" "x \<in> set POWDERS \<Longrightarrow> nice x"
  "x \<in> set WOOD_TYPES \<Longrightarrow> nice x" "x \<in> set GEM_TYPES \<Longrightarrow> nice x" "x \<in> set GEM_GRADES \<Longrightarrow> nice x"
  "(x, b) \<in> set METAL_TYPES \<Longrightarrow> nice x" "(x, b) \<in> set METAL_ITEMS \<Longrightarrow> nice x"
  "(x, y) \<in> set FLUIDS \<Longrightarrow> nice x"
  using nice_tables unfolding list_all_iff by force+

lemma nice_literals:
  "nice ''fluid''" "nice ''ore''" "nice ''clay_grass''" "nice ''wall''" "nice ''cobble''" "nice ''bricks''"
  "nice ''smooth''" "nice ''stairs''" "nice ''slab''" "nice ''half''" "nice ''full''" "nice ''stone''"
  "nice ''button''" "nice ''wood''" "nice ''log''" "nice ''planks''" "nice ''leaves''" "nice ''fence''"
  "nice ''fence_gate''" "nice ''sapling''" "nice ''door''" "nice ''trapdoor''" "nice ''chest''"
  "nice ''chest_trap''" "nice ''bookshelf''" "nice ''workbench''" "nice ''poor''" "nice ''rich''"
  "nice ''small''" "nice ''normal''" "nice ''rock''" "nice ''brick''" "nice ''gem''" "nice ''metal''"
  "nice ''ingot''" "nice ''unknown''" "nice ''lumber''" "nice ''axe''" "nice ''shovel''" "nice ''hoe''"
  "nice ''knife''" "nice ''javelin''" "nice ''hammer''" "nice ''powder''" "nice ''goldpan''" "nice ''empty''"
  "nice ''sand''" "nice ''gravel''" "nice ''clay''" "nice ''dirt''" "nice ''mold''" "nice ''unfired''"
  "nice ''copper''" "nice ''bronze''" "nice ''black_bronze''" "nice ''bismuth_bronze''" "nice ''ceramics''"
  "nice ''fired''" "nice ''vessel''" "nice ''vessel_glazed''" "nice ''spindle''" "nice ''pot''" "nice ''bowl''"
  "nice ''fire_brick''" "nice ''jug''" "nice ''fire_clay''" "nice ''flat''" "nice ''leather''"
  by (simp_all add: nice_def)

lemma nice_steel_name: "nice metal \<Longrightarrow> nice (''high_carbon'' @ ''_'' @ metal)" "nice metal \<Longrightarrow> nice (''weak'' @ ''_'' @ metal)"
  by (simp_all add: nice_def)

lemmas nicely_intros = nicely_blockstate nicely_cube_all nicely_model nicely_item

lemma nicely_fluid_blocks: "\<forall>s \<in> set fluid_blocks. emits_nicely s"
  by (auto simp: fluid_blocks_def nice_literals nice_in intro!: nicely_intros)

lemma nicely_rock_blocks: "nice r \<Longrightarrow> \<forall>s \<in> set (rock_blocks r). emits_nicely s"
  by (auto simp: rock_blocks_def nice_literals nice_in intro!: nicely_intros)

lemma nicely_wood_blocks: "nice r \<Longrightarrow> \<forall>s \<in> set (wood_blocks r). emits_nicely s"
  by (auto simp: wood_blocks_def nice_literals nice_in intro!: nicely_intros)

lemma nicely_steel_items:
  "kind = ''metal'' \<or> kind = ''mold'' \<Longrightarrow> \<forall>m \<in> set steel. nice m \<Longrightarrow> \<forall>s \<in> set (steel_items kind steel). emits_nicely s"
  by (auto simp: steel_items_def nice_literals intro!: nicely_intros) (auto simp: nice_def)

lemma nicely_ore_items: "\<forall>s \<in> set ore_items. emits_nicely s"
  by (auto simp: ore_items_def nice_literals nice_in intro!: nicely_intros)

lemma nicely_rock_items: "\<forall>s \<in> set rock_items. emits_nicely s"
  by (auto simp: rock_items_def nice_literals nice_in intro!: nicely_intros)

lemma nicely_door_items: "\<forall>s \<in> set door_items. emits_nicely s"
  by (auto simp: door_items_def nice_literals nice_in intro!: nicely_intros)

lemma nicely_gem_items: "\<forall>s \<in> set gem_items. emits_nicely s"
  by (auto simp: gem_items_def nice_literals nice_in intro!: nicely_intros)

lemma nicely_metal_items: "\<forall>m \<in> set steel. nice m \<Longrightarrow> \<forall>s \<in> set (metal_items steel). emits_nicely s"
  using nicely_steel_items[of "''metal''" steel]
  by (auto simp: metal_items_def nice_literals nice_in split: if_splits intro!: nicely_intros)

lemma nicely_lumber_items: "\<forall>s \<in> set lumber_items. emits_nicely s"
  by (auto simp: lumber_items_def nice_literals nice_in intro!: nicely_intros)

lemma nicely_rock_tool_items: "\<forall>s \<in> set rock_tool_items. emits_nicely s"
  by (auto simp: rock_tool_items_def nice_literals nice_in intro!: nicely_intros)

lemma nicely_powder_items: "\<forall>s \<in> set powder_items. emits_nicely s"
  by (auto simp: powder_items_def nice_literals nice_in intro!: nicely_intros)

lemma nicely_goldpan_items: "\<forall>s \<in> set goldpan_items. emits_nicely s"
  by (auto simp: goldpan_items_def nice_literals nice_in intro!: nicely_intros)

lemma nicely_mold_items: "\<forall>m \<in> set steel. nice m \<Longrightarrow> \<forall>s \<in> set (mold_items steel). emits_nicely s"
  using nicely_steel_items[of "''mold''" steel]
  by (auto simp: mold_items_def nice_literals nice_in split: if_splits intro!: nicely_intros)

lemma nicely_ceramics_items: "\<forall>s \<in> set ceramics_items. emits_nicely s"
  by (auto simp: ceramics_items_def nice_literals intro!: nicely_intros)

lemma nicely_flat_items: "\<forall>s \<in> set flat_items. emits_nicely s"
  by (auto simp: flat_items_def nice_literals nice_in intro!: nicely_intros)

lemma steel_nice: "steel_order s \<Longrightarrow> \<forall>m \<in> set s. nice m"
  by (simp add: steel_order_def STEEL_def nice_def)

lemma nicely_driver:
  assumes "steel_order s"
  shows "\<forall>st \<in> set (driver s). emits_nicely st"
proof -
  note n = steel_nice[OF assms]
  have "\<forall>st \<in> set (concat (map rock_blocks ROCK_TYPES)). emits_nicely st"
    using nicely_rock_blocks nice_in(1) by auto
  moreover have "\<forall>st \<in> set (concat (map wood_blocks WOOD_TYPES)). emits_nicely st"
    using nicely_wood_blocks nice_in(7) by auto
  ultimately show ?thesis
    using nicely_fluid_blocks nicely_ore_items nicely_rock_items nicely_door_items nicely_gem_items
      nicely_metal_items[OF n] nicely_lumber_items nicely_rock_tool_items nicely_powder_items
      nicely_goldpan_items nicely_mold_items[OF n] nicely_ceramics_items nicely_flat_items
    unfolding driver_def set_append by blast
qed

lemma zipfolder_ready:
  assumes c: "cwd w = []" and a: "map_of (nodes w) ''assets_backups'' = Some Dir"
    and z: "map_of (nodes w) (archive_name now) \<noteq> Some Dir"
  shows "\<exists>w' x. zipfolder (archive_name now) t w = Inr w' \<and> cwd w' = []
     \<and> map_of (nodes w') = (map_of (nodes w))(archive_name now \<mapsto> File x)"
  using assms
  by (auto simp: zipfolder_def Let_def open_write_def path_key_start archive_name_key archive_name_dirname
      is_dir_def map_of_dict_set)

lemma archive_step_ready:
  assumes r: "ready now w"
  shows "\<exists>w'. archive_step now w = Inr w' \<and> cwd w' = []
     \<and> map_of (nodes w') ''assets_backups'' = Some Dir
     \<and> (\<exists>x. map_of (nodes w') (archive_name now) = Some (File x))
     \<and> (\<forall>k. k \<noteq> ''assets_backups'' \<and> k \<noteq> ''assets_backups/.gitignore'' \<and> k \<noteq> archive_name now
            \<longrightarrow> map_of (nodes w') k = map_of (nodes w) k)"
proof (cases "map_of (nodes w) ''assets_backups'' = Some Dir")
  case True
  from r have c: "cwd w = []" and z: "map_of (nodes w) (archive_name now) \<noteq> Some Dir"
    by (simp_all add: ready_def)
  from True c have d: "os_path_isdir ''assets_backups'' w"
    by (simp add: os_path_isdir_def path_key_start rstrip_sep_def)
  from zipfolder_ready[OF c True z, of "''src/main/resources/assets/tfc''"] obtain w' x where
    "zipfolder (archive_name now) ''src/main/resources/assets/tfc'' w = Inr w'" "cwd w' = []"
    "map_of (nodes w') = (map_of (nodes w))(archive_name now \<mapsto> File x)" by blast
  then show ?thesis
    using d True r archive_name_neq[of now] unfolding archive_step_def archive_name_def[symmetric]
    by (auto simp: ready_def)
next
  case False
  with r have c: "cwd w = []" and a: "map_of (nodes w) ''assets_backups'' = None"
    and g: "map_of (nodes w) ''assets_backups/.gitignore'' \<noteq> Some Dir"
    and z: "map_of (nodes w) (archive_name now) \<noteq> Some Dir"
    by (auto simp: ready_def)
  have nd: "\<not> os_path_isdir ''assets_backups'' w"
    using a c by (simp add: os_path_isdir_def path_key_start rstrip_sep_def)
  obtain w1 where m: "os_mkdir ''assets_backups'' w = Inr w1" and c1: "cwd w1 = []"
    and m1: "map_of (nodes w1) = (map_of (nodes w))(''assets_backups'' \<mapsto> Dir)"
    using a c
    by (auto simp: os_mkdir_def path_key_start rstrip_sep_def os_path_dirname_def is_dir_def Let_def
        fun_eq_iff map_add_def split: option.splits)
  obtain w2 where g2: "open_write ''assets_backups/.gitignore'' (Text gitignore_lines) w1 = Inr w2"
    and c2: "cwd w2 = []"
    and m2: "map_of (nodes w2) = (map_of (nodes w1))(''assets_backups/.gitignore'' \<mapsto> File (Text gitignore_lines))"
    using g c1 m1
    by (simp add: open_write_def path_key_start gitignore_dirname is_dir_def Let_def rstrip_sep_id map_of_dict_set)
  have a2: "map_of (nodes w2) ''assets_backups'' = Some Dir" by (simp add: m2 m1)
  have z2: "map_of (nodes w2) (archive_name now) \<noteq> Some Dir"
    using z archive_name_neq[of now] by (simp add: m2 m1)
  from zipfolder_ready[OF c2 a2 z2, of "''src/main/resources/assets/tfc''"] obtain w' x where
    w': "zipfolder (archive_name now) ''src/main/resources/assets/tfc'' w2 = Inr w'" "cwd w' = []"
    "map_of (nodes w') = (map_of (nodes w2))(archive_name now \<mapsto> File x)" by blast
  have "archive_step now w = Inr w'"
    using nd m g2 w'(1) unfolding archive_step_def archive_name_def[symmetric] by simp
  then show ?thesis
    using w'(2,3) m2 m1 archive_name_neq[of now] by simp
qed

lemma outside_tree:
  "\<not> prefix (''src/main/resources/assets/tfc'' @ ''/'') ''assets_backups''"
  "\<not> prefix (''src/main/resources/assets/tfc'' @ ''/'') ''assets_backups/.gitignore''"
  "\<not> prefix (''src/main/resources/assets/tfc'' @ ''/'') (archive_name now)"
  "\<not> prefix (''src/main/resources/assets/tfc'' @ ''/'') ''src/main/resources/assets/tfc''"
  by (simp_all add: archive_name_def)

lemma inside_tree:
  "''src/main/resources/assets/tfc'' @ CHR ''/'' # k \<noteq> ''assets_backups''"
  "''src/main/resources/assets/tfc'' @ CHR ''/'' # k \<noteq> ''assets_backups/.gitignore''"
  "''src/main/resources/assets/tfc'' @ CHR ''/'' # k \<noteq> archive_name now"
  by (simp_all add: archive_name_def)

lemma generate_ready:
  assumes s: "steel_order s" and r: "ready now w"
  shows "\<exists>w'. generate s now w = Inr w' \<and> settled ''src/main/resources/assets/tfc'' w'
     \<and> map_of (nodes w') ''assets_backups'' = Some Dir
     \<and> (\<exists>x. map_of (nodes w') (archive_name now) = Some (File x))
     \<and> (\<forall>k. \<not> prefix (''src/main/resources/assets/tfc'' @ ''/'') k \<and> k \<noteq> ''assets_backups''
             \<and> k \<noteq> ''assets_backups/.gitignore'' \<and> k \<noteq> archive_name now
            \<longrightarrow> map_of (nodes w') k = map_of (nodes w) k)"
proof -
  let ?c = "''src/main/resources/assets/tfc''"
  from archive_step_ready[OF r] obtain w1 where w1: "archive_step now w = Inr w1 \<and> cwd w1 = []
     \<and> map_of (nodes w1) ''assets_backups'' = Some Dir
     \<and> (\<exists>x. map_of (nodes w1) (archive_name now) = Some (File x))
     \<and> (\<forall>k. k \<noteq> ''assets_backups'' \<and> k \<noteq> ''assets_backups/.gitignore'' \<and> k \<noteq> archive_name now
            \<longrightarrow> map_of (nodes w1) k = map_of (nodes w) k)" ..
  note 1 = w1[THEN conjunct1] and c1 = w1[THEN conjunct2, THEN conjunct1]
    and a1 = w1[THEN conjunct2, THEN conjunct2, THEN conjunct1]
    and f0 = w1[THEN conjunct2, THEN conjunct2, THEN conjunct2, THEN conjunct2]
  from w1[THEN conjunct2, THEN conjunct2, THEN conjunct2, THEN conjunct1]
  obtain x where z1: "map_of (nodes w1) (archive_name now) = Some (File x)" ..
  have f1: "map_of (nodes w1) k = map_of (nodes w) k"
    if "k \<noteq> ''assets_backups''" "k \<noteq> ''assets_backups/.gitignore''" "k \<noteq> archive_name now" for k
    by (rule f0[rule_format]) (intro conjI that)
  from r have t: "map_of (nodes w) ?c = Some Dir"
    by (simp add: ready_def)
  have d: "(n = Dir) = (CHR ''.'' \<notin> set k)" if "map_of (nodes w) (?c @ CHR ''/'' # k) = Some n" for k n
    using r that unfolding ready_def by (elim conjE) (erule allE[of _ k], erule allE[of _ n], erule mp)
  have t1: "map_of (nodes w1) ?c = Some Dir"
    using f1[of ?c] t archive_name_neq(3)[of now] by simp
  have d1: "(n = Dir) = (CHR ''.'' \<notin> set k)" if "map_of (nodes w1) (?c @ CHR ''/'' # k) = Some n" for k n
  proof -
    have "map_of (nodes w1) (?c @ CHR ''/'' # k) = map_of (nodes w) (?c @ CHR ''/'' # k)"
      by (rule f1) (rule inside_tree)+
    with that show ?thesis by (intro d) simp
  qed
  let ?w2 = "w1\<lparr>cwd := ''src/main/resources/assets/tfc/''\<rparr>"
  have 2: "os_chdir ''src/main/resources/assets/tfc/'' w1 = Inr ?w2"
    using t1 c1 by (simp add: os_chdir_def os_path_isdir_def path_key_start rstrip_sep_def)
  have s2: "settled ?c ?w2"
    unfolding settled_def
  proof (intro conjI allI impI)
    show "cwd ?w2 = ?c @ ''/''" by simp
    show "map_of (nodes ?w2) ?c = Some Dir" using t1 by simp
    fix k n assume "map_of (nodes ?w2) (?c @ CHR ''/'' # k) = Some n"
    then have "map_of (nodes w1) (?c @ CHR ''/'' # k) = Some n" by simp
    then show "(n = Dir) = (CHR ''.'' \<notin> set k)" by (rule d1)
  qed
  from run_all_nicely[OF _ _ s2 nicely_driver[OF s]] obtain w' where
    3: "run_all (driver s) ?w2 = Inr w'" and s3: "settled ?c w'" and o3: "same_outside ?c ?w2 w'"
    by auto
  have g: "generate s now w = Inr w'"
    using 1 2 3 by (simp add: generate_def)
  from o3 have o: "\<And>k. \<not> prefix (?c @ ''/'') k \<Longrightarrow> map_of (nodes w') k = map_of (nodes w1) k"
    unfolding same_outside_def by simp
  have a3: "map_of (nodes w') ''assets_backups'' = Some Dir"
    using o[OF outside_tree(1)] a1 by simp
  have z3: "map_of (nodes w') (archive_name now) = Some (File x)"
    using o[OF outside_tree(3), of now] z1 by simp
  have f3: "map_of (nodes w') k = map_of (nodes w) k"
    if "\<not> prefix (?c @ ''/'') k" "k \<noteq> ''assets_backups''" "k \<noteq> ''assets_backups/.gitignore''"
      "k \<noteq> archive_name now" for k
    using o[OF that(1)] f1[OF that(2,3,4)] by simp
  from g s3 a3 z3 f3 show ?thesis by blast
qed

lemma ready_again:
  assumes r: "ready t2 w" and s: "settled ''src/main/resources/assets/tfc'' w'"
    and a: "map_of (nodes w') ''assets_backups'' = Some Dir"
    and z: "map_of (nodes w') (archive_name t1) = Some (File x)"
    and f: "\<And>k. \<not> prefix (''src/main/resources/assets/tfc'' @ ''/'') k \<Longrightarrow> k \<noteq> ''assets_backups''
             \<Longrightarrow> k \<noteq> ''assets_backups/.gitignore'' \<Longrightarrow> k \<noteq> archive_name t1
            \<Longrightarrow> map_of (nodes w') k = map_of (nodes w) k"
  shows "ready t2 (w'\<lparr>cwd := []\<rparr>)"
proof -
  have "map_of (nodes w') (archive_name t2) \<noteq> Some Dir"
  proof (cases "archive_name t2 = archive_name t1")
    case True
    with z show ?thesis by simp
  next
    case False
    from f[OF outside_tree(3) archive_name_neq(1) archive_name_neq(2) False] r
    show ?thesis by (simp add: ready_def)
  qed
  with s a show ?thesis
    unfolding ready_def settled_def by simp
qed

lemma rerun_tree:
  assumes G: "overrides G" "\<And>s. steel_order s \<Longrightarrow> acts ''src/main/resources/assets/tfc/'' (run_all (driver s)) G"
    and s: "steel_order s1" "steel_order s2" and c: "cwd w = []"
    and r1: "generate s1 t1 w = Inr u1"
    and a: "map_of (nodes u1) ''assets_backups'' = Some Dir"
    and r2: "generate s2 t2 (u1\<lparr>cwd := []\<rparr>) = Inr u3"
    and k: "k \<noteq> archive_name t1" "k \<noteq> archive_name t2"
  shows "map_of (nodes u3) k = map_of (nodes u1) k"
proof -
  from generate_tree[OF G s(1) c r1] k(1) have 1: "map_of (nodes u1) k = G (archived_tree w) k" by simp
  have "archived_tree (u1\<lparr>cwd := []\<rparr>) = map_of (nodes u1)"
    using a by (simp add: archived_tree_def)
  with generate_tree[OF G s(2) _ r2] k(2) have "map_of (nodes u3) k = G (map_of (nodes u1)) k" by simp
  also from overrides_idem[OF G(1), of "map_of (nodes u1)" k "archived_tree w"] 1
  have "\<dots> = G (archived_tree w) k" by simp
  finally show ?thesis using 1 by simp
qed

section \<open>The claim about regeneration\<close>

text \<open>
  Claim C9. The output of a run does not depend on the order in which the run goes through
  the set \<^verbatim>\<open>STEEL\<close> nor on its clock: two runs that start in the same state of the project
  directory and return leave the same tree, path for path and content for content, but for
  the archives they are named after their clock values. In a project directory that is
  ready, every run returns, and so does a second run right after the first; the second
  leaves every path as the first left it, but for the archive it adds.
\<close>

theorem regeneration_deterministic:
  assumes "steel_order s1" and "steel_order s2" and "cwd w = []"
  shows "(generate s1 t1 w = Inr w1 \<and> generate s2 t2 w = Inr w2 \<longrightarrow>
            (\<forall>k. k \<noteq> archive_name t1 \<and> k \<noteq> archive_name t2 \<longrightarrow> map_of (nodes w1) k = map_of (nodes w2) k))
       \<and> (ready t1 w \<and> ready t2 w \<longrightarrow>
            (\<exists>u1 u2 u3. generate s1 t1 w = Inr u1 \<and> generate s2 t2 w = Inr u2
                \<and> generate s2 t2 (u1\<lparr>cwd := []\<rparr>) = Inr u3
                \<and> (\<forall>k. k \<noteq> archive_name t2 \<longrightarrow> map_of (nodes u3) k = map_of (nodes u1) k)))"
proof (intro conjI impI)
  from steady_driver[of "''src/main/resources/assets/tfc/''"] obtain G where
    G: "overrides G" "\<And>s. steel_order s \<Longrightarrow> acts ''src/main/resources/assets/tfc/'' (run_all (driver s)) G"
    unfolding steady_def by blast
  {
    assume r: "generate s1 t1 w = Inr w1 \<and> generate s2 t2 w = Inr w2"
    from generate_tree[OF G assms(1,3) r[THEN conjunct1]] generate_tree[OF G assms(2,3) r[THEN conjunct2]]
    show "\<forall>k. k \<noteq> archive_name t1 \<and> k \<noteq> archive_name t2 \<longrightarrow> map_of (nodes w1) k = map_of (nodes w2) k"
      by simp
  }
  {
    assume r: "ready t1 w \<and> ready t2 w"
    let ?c = "''src/main/resources/assets/tfc''"
    from generate_ready[OF assms(1) r[THEN conjunct1]] obtain u1 where u1: "generate s1 t1 w = Inr u1 \<and> settled ?c u1
       \<and> map_of (nodes u1) ''assets_backups'' = Some Dir
       \<and> (\<exists>x. map_of (nodes u1) (archive_name t1) = Some (File x))
       \<and> (\<forall>k. \<not> prefix (?c @ ''/'') k \<and> k \<noteq> ''assets_backups''
             \<and> k \<noteq> ''assets_backups/.gitignore'' \<and> k \<noteq> archive_name t1
            \<longrightarrow> map_of (nodes u1) k = map_of (nodes w) k)" ..
    note g1 = u1[THEN conjunct1] and st1 = u1[THEN conjunct2, THEN conjunct1]
      and a1 = u1[THEN conjunct2, THEN conjunct2, THEN conjunct1]
      and f1 = u1[THEN conjunct2, THEN conjunct2, THEN conjunct2, THEN conjunct2]
    from u1[THEN conjunct2, THEN conjunct2, THEN conjunct2, THEN conjunct1]
    obtain x where z1: "map_of (nodes u1) (archive_name t1) = Some (File x)" ..
    from generate_ready[OF assms(2) r[THEN conjunct2]] obtain u2 where "generate s2 t2 w = Inr u2 \<and> settled ?c u2
       \<and> map_of (nodes u2) ''assets_backups'' = Some Dir
       \<and> (\<exists>x. map_of (nodes u2) (archive_name t2) = Some (File x))
       \<and> (\<forall>k. \<not> prefix (?c @ ''/'') k \<and> k \<noteq> ''assets_backups''
             \<and> k \<noteq> ''assets_backups/.gitignore'' \<and> k \<noteq> archive_name t2
            \<longrightarrow> map_of (nodes u2) k = map_of (nodes w) k)" ..
    then have g2: "generate s2 t2 w = Inr u2" ..
    have ra: "ready t2 (u1\<lparr>cwd := []\<rparr>)"
    proof (rule ready_again[OF r[THEN conjunct2] st1 a1 z1])
      fix k assume "\<not> prefix (?c @ ''/'') k" "k \<noteq> ''assets_backups''" "k \<noteq> ''assets_backups/.gitignore''"
        "k \<noteq> archive_name t1"
      then show "map_of (nodes u1) k = map_of (nodes w) k"
        by (intro f1[rule_format] conjI)
    qed
    from generate_ready[OF assms(2) ra] obtain u3 where u3: "generate s2 t2 (u1\<lparr>cwd := []\<rparr>) = Inr u3 \<and> settled ?c u3
       \<and> map_of (nodes u3) ''assets_backups'' = Some Dir
       \<and> (\<exists>x. map_of (nodes u3) (archive_name t2) = Some (File x))
       \<and> (\<forall>k. \<not> prefix (?c @ ''/'') k \<and> k \<noteq> ''assets_backups''
             \<and> k \<noteq> ''assets_backups/.gitignore'' \<and> k \<noteq> archive_name t2
            \<longrightarrow> map_of (nodes u3) k = map_of (nodes (u1\<lparr>cwd := []\<rparr>)) k)" ..
    note g3 = u3[THEN conjunct1]
    have f3: "\<forall>k. \<not> prefix (?c @ ''/'') k \<and> k \<noteq> ''assets_backups''
             \<and> k \<noteq> ''assets_backups/.gitignore'' \<and> k \<noteq> archive_name t2
            \<longrightarrow> map_of (nodes u3) k = map_of (nodes u1) k"
      using u3[THEN conjunct2, THEN conjunct2, THEN conjunct2, THEN conjunct2] by simp
    have "map_of (nodes u3) k = map_of (nodes u1) k" if k: "k \<noteq> archive_name t2" for k
    proof (cases "k = archive_name t1")
      case False
      from rerun_tree[OF G assms(1,2,3) g1 a1 g3 False k] show ?thesis .
    next
      case True
      have "map_of (nodes u3) (archive_name t1) = map_of (nodes u1) (archive_name t1)"
        by (rule f3[rule_format]) (use k True outside_tree(3) archive_name_neq in \<open>intro conjI; simp\<close>)
      with True show ?thesis by simp
    qed
    with g1 g2 g3
    show "\<exists>u1 u2 u3. generate s1 t1 w = Inr u1 \<and> generate s2 t2 w = Inr u2
                \<and> generate s2 t2 (u1\<lparr>cwd := []\<rparr>) = Inr u3
                \<and> (\<forall>k. k \<noteq> archive_name t2 \<longrightarrow> map_of (nodes u3) k = map_of (nodes u1) k)"
      by blast
  }
qed

theorem regeneration_deterministic_witness:
  "steel_order [''steel'', ''blue_steel'', ''red_steel'', ''black_steel'']
   \<and> steel_order [''black_steel'', ''red_steel'', ''blue_steel'', ''steel'']
   \<and> ready 1541260800 fresh_checkout \<and> ready 1541347200 fresh_checkout
   \<and> (\<exists>u1 u2 u3.
         generate [''steel'', ''blue_steel'', ''red_steel'', ''black_steel''] 1541260800 fresh_checkout = Inr u1
       \<and> generate [''black_steel'', ''red_steel'', ''blue_steel'', ''steel''] 1541347200 fresh_checkout = Inr u2
       \<and> generate [''black_steel'', ''red_steel'', ''blue_steel'', ''steel''] 1541347200 (u1\<lparr>cwd := []\<rparr>) = Inr u3
       \<and> map_of (nodes u1) ''src/main/resources/assets/tfc/models/item/metal/ingot/weak_steel.json''
           = map_of (nodes u2) ''src/main/resources/assets/tfc/models/item/metal/ingot/weak_steel.json''
       \<and> map_of (nodes u3) ''src/main/resources/assets/tfc/models/item/metal/ingot/weak_steel.json''
           = map_of (nodes u1) ''src/main/resources/assets/tfc/models/item/metal/ingot/weak_steel.json'')"
proof -
  let ?s1 = "[''steel'', ''blue_steel'', ''red_steel'', ''black_steel'']"
  let ?s2 = "[''black_steel'', ''red_steel'', ''blue_steel'', ''steel'']"
  let ?K = "''src/main/resources/assets/tfc/models/item/metal/ingot/weak_steel.json''"
  have s: "steel_order ?s1" "steel_order ?s2"
    by (auto simp: steel_order_def STEEL_def)
  have c: "cwd fresh_checkout = []" by (simp add: fresh_checkout_def)
  have r: "ready t fresh_checkout" for t
    unfolding ready_def by (auto simp: fresh_checkout_def archive_name_def)
  have k: "?K \<noteq> archive_name t" for t by (simp add: archive_name_def)
  from regeneration_deterministic[OF s c, of 1541260800 _ 1541347200, THEN conjunct2] r
  obtain u1 u2 u3 where u:
    "generate ?s1 1541260800 fresh_checkout = Inr u1"
    "generate ?s2 1541347200 fresh_checkout = Inr u2"
    "generate ?s2 1541347200 (u1\<lparr>cwd := []\<rparr>) = Inr u3"
    "\<forall>k. k \<noteq> archive_name 1541347200 \<longrightarrow> map_of (nodes u3) k = map_of (nodes u1) k"
    by blast
  from regeneration_deterministic[OF s c, of 1541260800 u1 1541347200 u2, THEN conjunct1] u(1,2) k
  have "map_of (nodes u1) ?K = map_of (nodes u2) ?K" by blast
  moreover from u(4) k have "map_of (nodes u3) ?K = map_of (nodes u1) ?K" by blast
  ultimately show ?thesis using s r u(1,2,3) by blast
qed

end
